theory Spec2Isabelle
  imports Complex_Main
begin

section \<open>The maze of apps/pacman.py\<close>

text \<open>
  The embedding follows \<^verbatim>\<open>src/apps/pacman.py\<close>. Python integers are \<open>int\<close>, tuples are
  pairs, the module constants keep their names. Times and the movement accumulators are
  Python floats; they are modelled as \<open>real\<close> (exact arithmetic), which is what the
  source computes on the values the loop sees, up to rounding. The drawing code, the
  joystick thread and the HUD fields of the game dictionary (\<^verbatim>\<open>col\<close>, \<^verbatim>\<open>mouth_*\<close>,
  \<^verbatim>\<open>power_on\<close>, \<^verbatim>\<open>power_timer\<close>, \<^verbatim>\<open>start_time\<close>, \<^verbatim>\<open>time_offset\<close>) carry no game logic
  and are left out.
\<close>

definition W :: int where "W = 128"
definition H :: int where "H = 64"

definition WALLMAP :: "string list" where
  "WALLMAP =
   [''XXXXXXXXXXXXXXXXXXXXXXXXXXXX'',
    ''X            XX            X'',
    ''X XXXX XXXXX XX XXXXX XXXX X'',
    ''X XXXX XXXXX XX XXXXX XXXX X'',
    ''X XXXX XXXXX XX XXXXX XXXX X'',
    ''X                          X'',
    ''X XXXX XX XXXXXXXX XX XXXX X'',
    ''X XXXX XX XXXXXXXX XX XXXX X'',
    ''X      XX    XX    XX      X'',
    ''XXXXXX XXXXX XX XXXXX XXXXXX'',
    ''     X XXXXX XX XXXXX X     '',
    ''     X XX          XX X     '',
    ''     X XX XXXXXXXX XX X     '',
    ''XXXXXX XX X      X XX XXXXXX'',
    ''          X      X          '',
    ''XXXXXX XX X      X XX XXXXXX'',
    ''     X XX XXXXXXXX XX X     '',
    ''     X XX          XX X     '',
    ''     X XX XXXXXXXX XX X     '',
    ''XXXXXX XX XXXXXXXX XX XXXXXX'',
    ''X            XX            X'',
    ''X XXXX XXXXX XX XXXXX XXXX X'',
    ''X XXXX XXXXX XX XXXXX XXXX X'',
    ''X   XX                XX   X'',
    ''XXX XX XX XXXXXXXX XX XX XXX'',
    ''XXX XX XX XXXXXXXX XX XX XXX'',
    ''X      XX    XX    XX      X'',
    ''X XXXXXXXXXX XX XXXXXXXXXX X'',
    ''X XXXXXXXXXX XX XXXXXXXXXX X'',
    ''X                          X'',
    ''XXXXXXXXXXXXXXXXXXXXXXXXXXXX'']"

definition ROWS :: int where "ROWS = int (length WALLMAP)"
definition COLS :: int where "COLS = int (length (WALLMAP ! 0))"

lemma ROWS_eq: "ROWS = 31"
  by (simp add: ROWS_def WALLMAP_def)

lemma COLS_eq: "COLS = 28"
  by (simp add: COLS_def WALLMAP_def)

definition GATE_CY :: int where "GATE_CY = 12"
definition GATE_XS :: "int list" where "GATE_XS = [11..16]"
definition HOUSE_X0 :: int where "HOUSE_X0 = 10"
definition HOUSE_X1 :: int where "HOUSE_X1 = 17"
definition HOUSE_Y0 :: int where "HOUSE_Y0 = 11"
definition HOUSE_Y1 :: int where "HOUSE_Y1 = 18"

datatype ghost_name = Blinky | Pinky | Inky | Clyde

definition GHOSTS :: "ghost_name list" where
  "GHOSTS = [Blinky, Pinky, Inky, Clyde]"

fun GHOST_HOME_TILES :: "ghost_name \<Rightarrow> int \<times> int" where
  "GHOST_HOME_TILES Blinky = (13, 14)"
| "GHOST_HOME_TILES Pinky = (14, 14)"
| "GHOST_HOME_TILES Inky = (13, 15)"
| "GHOST_HOME_TILES Clyde = (14, 15)"

definition compute_house_exit_tile :: "int \<times> int" where
  "compute_house_exit_tile =
     (case filter (\<lambda>(cx, cy). 0 \<le> cx \<and> cx < COLS \<and> 0 \<le> cy \<and> cy < ROWS \<and>
                       WALLMAP ! nat cy ! nat cx = CHR '' '')
                  [(14, 10), (13, 10), (15, 10), (14, 9), (14, 11)] of
        [] \<Rightarrow> (14, 10)
      | c # _ \<Rightarrow> c)"

definition HOUSE_EXIT_TILE :: "int \<times> int" where
  "HOUSE_EXIT_TILE = compute_house_exit_tile"

definition CELL_X :: int where "CELL_X = 4"
definition CELL_Y :: int where "CELL_Y = 2"
definition OX :: int where "OX = 0"
definition OY :: int where "OY = 1"
definition MAZE_W :: int where "MAZE_W = OX + COLS * CELL_X"

subsection \<open>Maze helpers\<close>

definition DIRS_L :: "int \<times> int" where "DIRS_L = (-1, 0)"
definition DIRS_R :: "int \<times> int" where "DIRS_R = (1, 0)"
definition DIRS_U :: "int \<times> int" where "DIRS_U = (0, -1)"
definition DIRS_D :: "int \<times> int" where "DIRS_D = (0, 1)"

definition DIR_LIST :: "(int \<times> int) list" where
  "DIR_LIST = [DIRS_L, DIRS_R, DIRS_U, DIRS_D]"

definition in_bounds :: "int \<Rightarrow> int \<Rightarrow> bool" where
  "in_bounds cx cy \<longleftrightarrow> 0 \<le> cx \<and> cx < COLS \<and> 0 \<le> cy \<and> cy < ROWS"

text \<open>
  \<^verbatim>\<open>WALLMAP[cy][cx]\<close> is read only after the bounds test, so the row index is in range;
  the column index is in range because every row of the constant has \<open>COLS\<close> characters
  (lemma \<open>WALLMAP_rectangular\<close> below).
\<close>

definition is_wall :: "int \<Rightarrow> int \<Rightarrow> bool" where
  "is_wall cx cy \<longleftrightarrow> (if \<not> in_bounds cx cy then True
                     else WALLMAP ! nat cy ! nat cx = CHR ''X'')"

definition is_gate_tile :: "int \<Rightarrow> int \<Rightarrow> bool" where
  "is_gate_tile cx cy \<longleftrightarrow> cy = GATE_CY \<and> cx \<in> set GATE_XS"

definition in_house :: "int \<Rightarrow> int \<Rightarrow> bool" where
  "in_house cx cy \<longleftrightarrow> HOUSE_X0 \<le> cx \<and> cx \<le> HOUSE_X1 \<and> HOUSE_Y0 \<le> cy \<and> cy \<le> HOUSE_Y1"

definition is_open_for_pac :: "int \<Rightarrow> int \<Rightarrow> bool" where
  "is_open_for_pac cx cy \<longleftrightarrow> (if is_gate_tile cx cy then False else \<not> is_wall cx cy)"

definition is_open_for_ghost :: "int \<Rightarrow> int \<Rightarrow> bool" where
  "is_open_for_ghost cx cy \<longleftrightarrow> \<not> is_wall cx cy \<or> is_gate_tile cx cy"

definition cell_center :: "int \<Rightarrow> int \<Rightarrow> int \<times> int" where
  "cell_center cx cy = (OX + cx * CELL_X + CELL_X div 2, OY + cy * CELL_Y + CELL_Y div 2)"

text \<open>
  Python's \<^verbatim>\<open>int(round(n / d))\<close> for integers \<open>n\<close> and \<open>d > 0\<close>: the quotient is rounded to
  the nearest integer, a tie to the even one. With \<open>d\<close> a power of two the float
  quotient is exact (below \<open>2^53\<close>), so the integer formula is what the source computes.
\<close>

definition py_round_div :: "int \<Rightarrow> int \<Rightarrow> int" where
  "py_round_div n d =
     (let q = n div d; r = n mod d
      in if 2 * r < d then q
         else if d < 2 * r then q + 1
         else if even q then q else q + 1)"

definition px_to_cell :: "int \<Rightarrow> int \<Rightarrow> int \<times> int" where
  "px_to_cell x y =
     (let cx = py_round_div (x - (OX + CELL_X div 2)) CELL_X;
          cy = py_round_div (y - (OY + CELL_Y div 2)) CELL_Y
      in (max 0 (min (COLS - 1) cx), max 0 (min (ROWS - 1) cy)))"

definition is_at_tile_center :: "int \<Rightarrow> int \<Rightarrow> bool" where
  "is_at_tile_center x y \<longleftrightarrow>
     (let (cx, cy) = px_to_cell x y; (tx, ty) = cell_center cx cy
      in x = tx \<and> y = ty)"

definition collide :: "int \<Rightarrow> int \<Rightarrow> int \<Rightarrow> int \<Rightarrow> int \<Rightarrow> bool" where
  "collide x y gx gy r \<longleftrightarrow> \<bar>x - gx\<bar> \<le> r \<and> \<bar>y - gy\<bar> \<le> r"

subsection \<open>Tunnel wrap\<close>

definition TUNNEL_ROWS :: "int set" where
  "TUNNEL_ROWS =
     set (filter (\<lambda>cy. is_open_for_ghost 0 cy \<and> is_open_for_ghost (COLS - 1) cy)
                 [0..ROWS - 1])"

definition tunnel_wrap_on_centerline :: "int \<Rightarrow> int \<Rightarrow> int \<Rightarrow> int \<times> int" where
  "tunnel_wrap_on_centerline x y dirx =
     (let (cx, cy) = px_to_cell x y
      in if cy \<notin> TUNNEL_ROWS then (x, y)
         else let (lx, ly) = cell_center 0 cy;
                  (rx, ry) = cell_center (COLS - 1) cy
              in if dirx < 0 \<and> x \<le> lx then (rx, ry)
                 else if 0 < dirx \<and> rx \<le> x then (lx, ly)
                 else (x, ly))"

subsection \<open>Centreline masks\<close>

text \<open>
  The masks are lists of rows, as in the source. \<^verbatim>\<open>setpix\<close> writes only inside the
  display and left of \<open>MAZE_W\<close>, so the list updates are in range. The body of the
  double loop is \<open>mask_tile\<close>; it acts on the pair (pac, ghost).
\<close>

type_synonym mask = "bool list list"

definition blank_mask :: mask where
  "blank_mask = replicate (nat H) (replicate (nat W) False)"

definition setpix :: "mask \<Rightarrow> int \<Rightarrow> int \<Rightarrow> mask" where
  "setpix m x y =
     (if 0 \<le> x \<and> x < W \<and> 0 \<le> y \<and> y < H \<and> x < MAZE_W
      then m[nat y := (m ! nat y)[nat x := True]] else m)"

definition can_stand :: "mask \<Rightarrow> int \<Rightarrow> int \<Rightarrow> bool" where
  "can_stand m x y \<longleftrightarrow> 0 \<le> x \<and> x < W \<and> 0 \<le> y \<and> y < H \<and> m ! nat y ! nat x"

definition mask_tile :: "int \<Rightarrow> int \<Rightarrow> mask \<times> mask \<Rightarrow> mask \<times> mask" where
  "mask_tile cx cy pg =
     (if is_wall cx cy \<and> \<not> is_gate_tile cx cy then pg
      else
        let (x, y) = cell_center cx cy;
            pg1 = (if is_open_for_pac cx cy then (setpix (fst pg) x y, snd pg) else pg);
            pg2 = (if is_open_for_ghost cx cy then (fst pg1, setpix (snd pg1) x y) else pg1);
            pg3 = (if cx + 1 < COLS \<and> is_open_for_ghost (cx + 1) cy
                   then let x2 = fst (cell_center (cx + 1) cy)
                        in fold (\<lambda>xx (p, g).
                                   (if is_open_for_pac cx cy \<and> is_open_for_pac (cx + 1) cy
                                    then setpix p xx y else p,
                                    setpix g xx y))
                                [min x x2..max x x2] pg2
                   else pg2)
        in (if cy + 1 < ROWS \<and> is_open_for_ghost cx (cy + 1)
            then let y2 = snd (cell_center cx (cy + 1))
                 in fold (\<lambda>yy (p, g).
                            (if is_open_for_pac cx cy \<and> is_open_for_pac cx (cy + 1)
                             then setpix p x yy else p,
                             setpix g x yy))
                         [min y y2..max y y2] pg3
            else pg3))"

definition build_centerline_masks :: "mask \<times> mask" where
  "build_centerline_masks =
     (let pg = fold (\<lambda>cy. fold (\<lambda>cx. mask_tile cx cy) [0..COLS - 1]) [0..ROWS - 1]
                    (blank_mask, blank_mask);
          ghost = fold (\<lambda>cx g. case cell_center cx GATE_CY of (x, y) \<Rightarrow> setpix g x y)
                       GATE_XS (snd pg)
      in (fst pg, ghost))"

definition pac_mask :: mask where "pac_mask = fst build_centerline_masks"
definition ghost_mask :: mask where "ghost_mask = snd build_centerline_masks"

subsection \<open>Pellets\<close>

definition flood_visit ::
  "int \<times> int \<Rightarrow> int \<times> int \<Rightarrow> (int \<times> int) list \<times> (int \<times> int) set \<Rightarrow>
     (int \<times> int) list \<times> (int \<times> int) set" where
  "flood_visit xy d qs =
     (let n = (fst xy + fst d, snd xy + snd d)
      in if n \<in> snd qs then qs
         else if in_bounds (fst n) (snd n) \<and> is_open_for_pac (fst n) (snd n)
              then (fst qs @ [n], insert n (snd qs))
              else qs)"

definition flood_expand ::
  "int \<times> int \<Rightarrow> (int \<times> int) list \<times> (int \<times> int) set \<Rightarrow> (int \<times> int) list \<times> (int \<times> int) set" where
  "flood_expand xy = fold (flood_visit xy) DIR_LIST"

definition open_tiles :: "(int \<times> int) set" where
  "open_tiles = {(cx, cy). in_bounds cx cy \<and> is_open_for_pac cx cy}"

definition nbr :: "int \<times> int \<Rightarrow> int \<times> int \<Rightarrow> int \<times> int" where
  "nbr xy d = (fst xy + fst d, snd xy + snd d)"

lemma finite_open_tiles: "finite open_tiles"
proof -
  have "open_tiles \<subseteq> {0..27} \<times> {0..30}"
    by (auto simp: open_tiles_def in_bounds_def ROWS_eq COLS_eq)
  then show ?thesis by (rule finite_subset) simp
qed

lemma flood_visit_cases:
  "flood_visit xy d (q, seen) =
     (if nbr xy d \<in> open_tiles - seen then (q @ [nbr xy d], insert (nbr xy d) seen) else (q, seen))"
  by (auto simp: flood_visit_def nbr_def open_tiles_def Let_def)

lemma flood_fold_props:
  "fold (flood_visit xy) ds (q, seen) = (q', seen') \<Longrightarrow>
   seen' = seen \<union> (nbr xy ` set ds \<inter> open_tiles) \<and> (seen' = seen \<longrightarrow> q' = q) \<and>
   set q' = set q \<union> (seen' - seen)"
proof (induction ds arbitrary: q seen)
  case Nil
  then show ?case by simp
next
  case (Cons d ds)
  show ?case
  proof (cases "nbr xy d \<in> open_tiles - seen")
    case True
    with Cons.prems have "fold (flood_visit xy) ds (q @ [nbr xy d], insert (nbr xy d) seen) = (q', seen')"
      by (simp add: flood_visit_cases)
    from Cons.IH [OF this] True show ?thesis by auto
  next
    case False
    then have "flood_visit xy d (q, seen) = (q, seen)"
      by (simp only: flood_visit_cases if_False)
    with Cons.prems have "fold (flood_visit xy) ds (q, seen) = (q', seen')"
      by simp
    from Cons.IH [OF this] False show ?thesis by auto
  qed
qed

lemma flood_expand_props:
  assumes "flood_expand xy (q, seen) = (q', seen')"
  shows "seen' = seen \<union> (nbr xy ` set DIR_LIST \<inter> open_tiles)" "seen' = seen \<Longrightarrow> q' = q"
    "set q' = set q \<union> (seen' - seen)"
  using flood_fold_props [OF assms [unfolded flood_expand_def]] by auto

function flood_loop :: "(int \<times> int) list \<Rightarrow> (int \<times> int) set \<Rightarrow> (int \<times> int) set" where
  "flood_loop [] seen = seen"
| "flood_loop (xy # q) seen =
     (case flood_expand xy (q, seen) of (q', seen') \<Rightarrow> flood_loop q' seen')"
  by pat_completeness auto
termination
proof (relation "measures [\<lambda>(q, seen). card (open_tiles - seen), \<lambda>(q, seen). length q]")
  show "wf (measures [\<lambda>(q, seen). card (open_tiles - seen), \<lambda>(q, seen). length q])" by simp
next
  fix xy :: "int \<times> int" and q seen q' seen'
  assume "(q', seen') = flood_expand xy (q, seen)"
  then have e: "flood_expand xy (q, seen) = (q', seen')" by simp
  note p = flood_expand_props [OF e]
  show "((q', seen'), xy # q, seen)
        \<in> measures [\<lambda>(q, seen). card (open_tiles - seen), \<lambda>(q, seen). length q]"
  proof (cases "seen' = seen")
    case True
    with p(2) show ?thesis by simp
  next
    case False
    with p(1) obtain n where n: "n \<in> seen'" "n \<notin> seen" "n \<in> open_tiles" by blast
    have "open_tiles - seen' \<subset> open_tiles - seen" using n p(1) by blast
    then have "card (open_tiles - seen') < card (open_tiles - seen)"
      using finite_open_tiles by (intro psubset_card_mono) auto
    then show ?thesis by simp
  qed
qed

definition flood_reachable :: "int \<times> int \<Rightarrow> (int \<times> int) set" where
  "flood_reachable start =
     (if \<not> is_open_for_pac (fst start) (snd start) then {}
      else flood_loop [start] {start})"

definition pick_start_tile_pac :: "int \<times> int" where
  "pick_start_tile_pac =
     (let cx = COLS div 2
      in case filter (\<lambda>cy. is_open_for_pac cx cy) (rev [1..ROWS - 2]) of
           [] \<Rightarrow> (1, 1)
         | cy # _ \<Rightarrow> (cx, cy))"

definition build_pellets :: "(int \<times> int) set \<Rightarrow> (int \<times> int) set \<times> (int \<times> int) set" where
  "build_pellets reachable =
     (let pellets0 = {c \<in> reachable. \<not> in_house (fst c) (snd c)};
          candidates = [(1, 3), (COLS - 2, 3), (1, 23), (COLS - 2, 23)]
      in fold (\<lambda>c (pel, pow). if c \<in> reachable then (pel - {c}, insert c pow) else (pel, pow))
              candidates (pellets0, {}))"

subsection \<open>Ghost AI\<close>

definition ghost_possible_dirs :: "mask \<Rightarrow> int \<Rightarrow> int \<Rightarrow> (int \<times> int) list" where
  "ghost_possible_dirs m x y = filter (\<lambda>(dx, dy). can_stand m (x + dx) (y + dy)) DIR_LIST"

definition score_dir :: "int \<Rightarrow> int \<Rightarrow> int \<times> int \<Rightarrow> bool \<Rightarrow> int \<times> int \<Rightarrow> int" where
  "score_dir x y target frightened d =
     (let nx = x + fst d; ny = y + snd d;
          md = \<bar>fst target - nx\<bar> + \<bar>snd target - ny\<bar>
      in if frightened then - md else md)"

text \<open>
  \<^verbatim>\<open>random.random()\<close> and \<^verbatim>\<open>random.choice\<close> are the two draws of the source; the model
  takes them as the argument \<open>(r, k)\<close>: \<open>r\<close> is the float in \<open>[0, 1)\<close>, \<open>k\<close> selects the
  element that \<^verbatim>\<open>random.choice\<close> returns. \<^verbatim>\<open>list.sort(key=...)\<close> is stable, as \<open>sort_key\<close> is.
\<close>

definition ghost_choose_dir ::
  "int \<Rightarrow> int \<Rightarrow> int \<times> int \<Rightarrow> int \<times> int \<Rightarrow> bool \<Rightarrow> mask \<Rightarrow> real \<times> nat \<Rightarrow> int \<times> int" where
  "ghost_choose_dir x y d target frightened m rk =
     (let dirs = ghost_possible_dirs m x y
      in if dirs = [] then (0, 0)
         else
           let rev = (- fst d, - snd d);
               nonrev = filter (\<lambda>c. c \<noteq> rev) dirs;
               choices = (if nonrev = [] then dirs else nonrev);
               sorted_choices = sort_key (score_dir x y target frightened) choices
           in if 1 < length sorted_choices \<and> fst rk < (if \<not> frightened then 0.25 else 0.10)
              then take 2 sorted_choices ! (snd rk mod length (take 2 sorted_choices))
              else sorted_choices ! 0)"

subsection \<open>Game state\<close>

record ghost =
  g_x :: int
  g_y :: int
  g_dir :: "int \<times> int"
  g_fright :: real
  g_home :: "int \<times> int"

record game =
  score :: int
  hiscore :: int
  lives :: int
  level :: int
  pellets :: "(int \<times> int) set"
  power_pellets :: "(int \<times> int) set"
  px :: int
  py :: int
  dir :: "int \<times> int"
  want :: "int \<times> int"
  ghosts :: "ghost_name \<Rightarrow> ghost"
  dead :: bool
  dead_t :: real
  p_acc :: real
  g_acc :: "ghost_name \<Rightarrow> real"
  menu :: bool
  menu_idx :: int
  fright_chain :: int
  waiting :: bool
  last_menu_toggle :: real

definition home_ghost :: "ghost_name \<Rightarrow> ghost" where
  "home_ghost name =
     (let (hx, hy) = GHOST_HOME_TILES name; (x, y) = cell_center hx hy
      in \<lparr>g_x = x, g_y = y, g_dir = DIRS_U, g_fright = 0, g_home = (hx, hy)\<rparr>)"

definition reset_level :: "game \<Rightarrow> game" where
  "reset_level s =
     (let ps = pick_start_tile_pac;
          reachable = flood_reachable ps;
          (pel, pow) = build_pellets reachable;
          (x, y) = cell_center (fst ps) (snd ps)
      in s\<lparr>pellets := pel, power_pellets := pow,
            px := x, py := y, dir := DIRS_L, want := DIRS_L, p_acc := 0,
            ghosts := fold (\<lambda>name gs. gs(name := home_ghost name)) GHOSTS (ghosts s),
            g_acc := fold (\<lambda>name ga. ga(name := 0)) GHOSTS (g_acc s),
            menu := False, menu_idx := 0, fright_chain := 0, waiting := True\<rparr>)"

definition new_game :: "int \<Rightarrow> game" where
  "new_game hs =
     reset_level
       \<lparr>score = 0, hiscore = hs, lives = 3, level = 1,
        pellets = {}, power_pellets = {},
        px = 0, py = 0, dir = DIRS_L, want = DIRS_L,
        ghosts = home_ghost,
        dead = False, dead_t = 0,
        p_acc = 0, g_acc = (\<lambda>name. 0),
        menu = False, menu_idx = 0, fright_chain = 0, waiting = True,
        last_menu_toggle = 0\<rparr>"

subsection \<open>The main loop\<close>

record NavEvent =
  ev_up :: bool
  ev_down :: bool
  ev_left :: bool
  ev_right :: bool
  ev_a :: bool
  ev_b :: bool
  ev_x :: bool
  ev_y :: bool
  ev_start :: bool
  ev_select :: bool

definition MENU_TOGGLE_FALLBACK_Y :: bool where "MENU_TOGGLE_FALLBACK_Y = False"
definition MENU_DEBOUNCE_SEC :: real where "MENU_DEBOUNCE_SEC = 0.35"
definition MENU_ITEMS :: "string list" where "MENU_ITEMS = [''RESUME'', ''RESTART'', ''EXIT'']"
definition PAC_SPEED_BASE :: real where "PAC_SPEED_BASE = 24"
definition frame_dt :: real where "frame_dt = 0.02"
definition FRIGHT_DURATION :: real where "FRIGHT_DURATION = 10.5"

text \<open>
  What one pass of \<^verbatim>\<open>while running\<close> reads from outside: the joystick event, the two
  clock readings and, for each ghost, the two random draws its \<^verbatim>\<open>ghost_choose_dir\<close> call
  may make.
\<close>

record tick_input =
  ev :: NavEvent
  now1 :: real
  now2 :: real
  rnd :: "ghost_name \<Rightarrow> real \<times> nat"

text \<open>
  The loop state: the \<^verbatim>\<open>game\<close> dictionary, the local \<^verbatim>\<open>last\<close>, and the content of the
  high-score file, which \<^verbatim>\<open>save_hiscore\<close> overwrites (a failed write is swallowed by
  the source; the model writes).
\<close>

record world =
  game :: game
  last_frame :: real
  hiscore_file :: int

definition menu_toggle :: "NavEvent \<Rightarrow> real \<Rightarrow> game \<Rightarrow> game" where
  "menu_toggle e now s =
     (let raw_toggle = ev_start e \<or> ev_select e \<or> (MENU_TOGGLE_FALLBACK_Y \<and> ev_y e)
      in if raw_toggle \<and> now - last_menu_toggle s > MENU_DEBOUNCE_SEC
         then let s1 = s\<lparr>last_menu_toggle := now, menu := \<not> menu s\<rparr>
              in (if menu s1 then s1\<lparr>menu_idx := 0\<rparr> else s1)
         else s)"

definition waiting_start :: "NavEvent \<Rightarrow> game \<Rightarrow> game" where
  "waiting_start e s =
     (if waiting s \<and> \<not> menu s \<and> \<not> dead s
      then (if ev_left e then s\<lparr>waiting := False, want := DIRS_L, dir := DIRS_L\<rparr>
            else if ev_right e then s\<lparr>waiting := False, want := DIRS_R, dir := DIRS_R\<rparr>
            else s)
      else s)"

definition flush_hiscore :: "game \<times> int \<Rightarrow> game \<times> int" where
  "flush_hiscore sd =
     (if score (fst sd) > hiscore (fst sd)
      then ((fst sd)\<lparr>hiscore := score (fst sd)\<rparr>, score (fst sd))
      else sd)"

text \<open>
  The menu block. \<open>None\<close> is \<^verbatim>\<open>exec_launcher_or_exit\<close>: the process is replaced by the
  launcher (or \<^verbatim>\<open>SystemExit\<close> is raised), so the loop has no next state.
\<close>

definition menu_actions :: "NavEvent \<Rightarrow> game \<times> int \<Rightarrow> (game \<times> int) option" where
  "menu_actions e sd =
     (if menu (fst sd)
      then
        let s = fst sd; d = snd sd;
            s1 = (if ev_up e then s\<lparr>menu_idx := (menu_idx s - 1) mod int (length MENU_ITEMS)\<rparr> else s);
            s2 = (if ev_down e then s1\<lparr>menu_idx := (menu_idx s1 + 1) mod int (length MENU_ITEMS)\<rparr> else s1);
            s3 = (if ev_b e \<or> ev_y e then s2\<lparr>menu := False\<rparr> else s2)
        in if ev_a e \<or> ev_x e
           then
             let choice = MENU_ITEMS ! nat (menu_idx s3)
             in if choice = ''RESUME'' then Some (s3\<lparr>menu := False\<rparr>, d)
                else if choice = ''RESTART''
                     then (let (s4, d4) = flush_hiscore (s3, d) in Some (new_game (hiscore s4), d4))
                else if choice = ''EXIT'' then None
                else Some (s3, d)
           else Some (s3, d)
      else Some sd)"

definition dpad_intent :: "NavEvent \<Rightarrow> game \<Rightarrow> game" where
  "dpad_intent e s =
     (if \<not> waiting s \<and> \<not> menu s \<and> \<not> dead s
      then
        let s1 = (if ev_left e then s\<lparr>want := DIRS_L\<rparr> else s);
            s2 = (if ev_right e then s1\<lparr>want := DIRS_R\<rparr> else s1);
            s3 = (if ev_up e then s2\<lparr>want := DIRS_U\<rparr> else s2)
        in (if ev_down e then s3\<lparr>want := DIRS_D\<rparr> else s3)
      else s)"

definition respawn :: "game \<Rightarrow> game" where
  "respawn s =
     (let ps = pick_start_tile_pac; (x, y) = cell_center (fst ps) (snd ps)
      in s\<lparr>px := x, py := y, dir := DIRS_L, want := DIRS_L, p_acc := 0,
            ghosts := fold (\<lambda>name gs.
                         gs(name := (let (hx, hy) = g_home (gs name); (hcx, hcy) = cell_center hx hy
                                     in (gs name)\<lparr>g_x := hcx, g_y := hcy, g_dir := DIRS_U, g_fright := 0\<rparr>)))
                       GHOSTS (ghosts s),
            g_acc := fold (\<lambda>name ga. ga(name := 0)) GHOSTS (g_acc s),
            fright_chain := 0, waiting := True\<rparr>)"

definition death_handling :: "real \<Rightarrow> game \<times> int \<Rightarrow> game \<times> int" where
  "death_handling elapsed sd =
     (if dead (fst sd)
      then
        let s1 = (fst sd)\<lparr>dead_t := dead_t (fst sd) + elapsed\<rparr>
        in if dead_t s1 \<ge> 1
           then
             let s2 = s1\<lparr>dead_t := 0, dead := False, lives := lives s1 - 1\<rparr>
             in if lives s2 \<le> 0
                then (let (s3, d3) = flush_hiscore (s2, snd sd) in (new_game (hiscore s3), d3))
                else (respawn s2, snd sd)
           else (s1, snd sd)
      else sd)"

subsection \<open>Gameplay\<close>

definition latch_dir :: "game \<Rightarrow> game" where
  "latch_dir s =
     (let (wx, wy) = want s
      in if can_stand pac_mask (px s + wx) (py s + wy) then s\<lparr>dir := want s\<rparr> else s)"

lemma floor_step: "1 \<le> (a::real) \<Longrightarrow> nat \<lfloor>a - 1\<rfloor> < nat \<lfloor>a\<rfloor>"
proof -
  assume "1 \<le> a"
  then have "1 \<le> \<lfloor>a\<rfloor>" by linarith
  moreover have "\<lfloor>a - 1\<rfloor> = \<lfloor>a\<rfloor> - 1" by linarith
  ultimately show ?thesis by simp
qed

function pac_steps :: "real \<Rightarrow> int \<times> int \<Rightarrow> int \<times> int \<Rightarrow> real \<times> (int \<times> int)" where
  "pac_steps acc d p =
     (if 1 \<le> acc
      then
        let p1 = (if fst d \<noteq> 0 then tunnel_wrap_on_centerline (fst p) (snd p) (fst d) else p);
            n = (fst p1 + fst d, snd p1 + snd d)
        in pac_steps (acc - 1) d (if can_stand pac_mask (fst n) (snd n) then n else p1)
      else (acc, p))"
  by pat_completeness auto
termination
  by (relation "measure (\<lambda>(acc, d, p). nat \<lfloor>acc\<rfloor>)") (simp_all add: floor_step)

declare pac_steps.simps [simp del]

definition pac_move :: "real \<Rightarrow> game \<Rightarrow> game" where
  "pac_move elapsed s =
     (let (acc, p) = pac_steps (p_acc s + PAC_SPEED_BASE * elapsed) (dir s) (px s, py s)
      in s\<lparr>p_acc := acc, px := fst p, py := snd p\<rparr>)"

definition eat :: "game \<Rightarrow> game" where
  "eat s =
     (let (cx, cy) = px_to_cell (px s) (py s); (txc, tyc) = cell_center cx cy
      in if px s = txc \<and> py s = tyc
         then
           let s1 = (if (cx, cy) \<in> pellets s
                     then s\<lparr>pellets := pellets s - {(cx, cy)}, score := score s + 10\<rparr> else s)
           in (if (cx, cy) \<in> power_pellets s1
               then s1\<lparr>power_pellets := power_pellets s1 - {(cx, cy)}, score := score s1 + 50,
                       ghosts := fold (\<lambda>name gs. gs(name := (gs name)\<lparr>g_fright := FRIGHT_DURATION\<rparr>))
                                      GHOSTS (ghosts s1),
                       fright_chain := 0\<rparr>
               else s1)
         else s)"

definition fright_decay :: "real \<Rightarrow> game \<Rightarrow> game" where
  "fright_decay elapsed s =
     s\<lparr>ghosts := fold (\<lambda>name gs.
                      if g_fright (gs name) > 0
                      then gs(name := (gs name)\<lparr>g_fright := max 0 (g_fright (gs name) - elapsed)\<rparr>)
                      else gs)
                    GHOSTS (ghosts s)\<rparr>"

function ghost_steps :: "real \<Rightarrow> int \<times> int \<Rightarrow> int \<times> int \<Rightarrow> real \<times> (int \<times> int)" where
  "ghost_steps acc d p =
     (if 1 \<le> acc
      then
        let p1 = (if fst d \<noteq> 0 then tunnel_wrap_on_centerline (fst p) (snd p) (fst d) else p);
            n = (fst p1 + fst d, snd p1 + snd d)
        in if can_stand ghost_mask (fst n) (snd n) then ghost_steps (acc - 1) d n
           else (acc - 1, p1)
      else (acc, p))"
  by pat_completeness auto
termination
  by (relation "measure (\<lambda>(acc, d, p). nat \<lfloor>acc\<rfloor>)") (simp_all add: floor_step)

declare ghost_steps.simps [simp del]

definition capture :: "ghost_name \<Rightarrow> game \<Rightarrow> game" where
  "capture name s =
     (let s1 = s\<lparr>fright_chain := fright_chain s + 1\<rparr>;
          s2 = s1\<lparr>score := score s1 + 200 * 2 ^ nat (max 0 (fright_chain s1 - 1))\<rparr>;
          g = ghosts s2 name;
          (hx, hy) = g_home g; (hcx, hcy) = cell_center hx hy
      in s2\<lparr>ghosts := (ghosts s2)(name := g\<lparr>g_x := hcx, g_y := hcy, g_dir := DIRS_U, g_fright := 0\<rparr>),
             g_acc := (g_acc s2)(name := 0)\<rparr>)"

definition ghost_think :: "real \<times> nat \<Rightarrow> int \<times> int \<Rightarrow> ghost \<Rightarrow> ghost" where
  "ghost_think rk pac_px g =
     (let frightened = g_fright g > 0
      in if is_at_tile_center (g_x g) (g_y g)
         then
           let (gcx, gcy) = px_to_cell (g_x g) (g_y g)
           in if in_house gcx gcy \<and> \<not> frightened
              then (if can_stand ghost_mask (g_x g) (g_y g - 1) then g\<lparr>g_dir := DIRS_U\<rparr>
                    else g\<lparr>g_dir := ghost_choose_dir (g_x g) (g_y g) (g_dir g)
                                      (cell_center (fst HOUSE_EXIT_TILE) (snd HOUSE_EXIT_TILE))
                                      False ghost_mask rk\<rparr>)
              else g\<lparr>g_dir := ghost_choose_dir (g_x g) (g_y g) (g_dir g) pac_px frightened ghost_mask rk\<rparr>
         else g)"

text \<open>The body of the loop over the ghosts; the flag is the \<^verbatim>\<open>break\<close> of the lethal branch.\<close>

definition ghost_turn ::
  "real \<Rightarrow> real \<Rightarrow> (ghost_name \<Rightarrow> real \<times> nat) \<Rightarrow> int \<times> int \<Rightarrow> ghost_name \<Rightarrow> game \<Rightarrow> bool \<times> game" where
  "ghost_turn ghost_speed elapsed rn pac_px name s =
     (let g = ghosts s name;
          frightened = g_fright g > 0;
          g1 = ghost_think (rn name) pac_px g;
          (acc, p) = ghost_steps (g_acc s name + ghost_speed * elapsed) (g_dir g1) (g_x g1, g_y g1);
          g2 = g1\<lparr>g_x := fst p, g_y := snd p\<rparr>;
          s2 = s\<lparr>ghosts := (ghosts s)(name := g2), g_acc := (g_acc s)(name := acc)\<rparr>
      in if collide (px s2) (py s2) (g_x g2) (g_y g2) 1
         then (if frightened then (False, capture name s2)
               else (True, s2\<lparr>dead := True, dead_t := 0\<rparr>))
         else (False, s2))"

fun ghosts_loop ::
  "real \<Rightarrow> real \<Rightarrow> (ghost_name \<Rightarrow> real \<times> nat) \<Rightarrow> int \<times> int \<Rightarrow> ghost_name list \<Rightarrow> game \<Rightarrow> game" where
  "ghosts_loop ghost_speed elapsed rn pac_px [] s = s"
| "ghosts_loop ghost_speed elapsed rn pac_px (name # names) s =
     (case ghost_turn ghost_speed elapsed rn pac_px name s of
        (True, s') \<Rightarrow> s'
      | (False, s') \<Rightarrow> ghosts_loop ghost_speed elapsed rn pac_px names s')"

definition bump_hiscore :: "game \<Rightarrow> game" where
  "bump_hiscore s = (if score s > hiscore s then s\<lparr>hiscore := score s\<rparr> else s)"

definition next_level :: "game \<Rightarrow> game" where
  "next_level s =
     (if pellets s = {} \<and> power_pellets s = {}
      then reset_level (s\<lparr>level := level s + 1, lives := 3\<rparr>)
      else s)"

definition play_core :: "real \<Rightarrow> (ghost_name \<Rightarrow> real \<times> nat) \<Rightarrow> game \<Rightarrow> game" where
  "play_core elapsed rn s =
     (let ghost_factor = min 2 (1 + 0.1 * (real_of_int (level s) - 1));
          ghost_speed = PAC_SPEED_BASE * ghost_factor;
          s1 = latch_dir s;
          s2 = pac_move elapsed s1;
          s3 = eat s2;
          s4 = fright_decay elapsed s3;
          s5 = ghosts_loop ghost_speed elapsed rn (px s4, py s4) GHOSTS s4
      in bump_hiscore s5)"

definition gameplay :: "real \<Rightarrow> (ghost_name \<Rightarrow> real \<times> nat) \<Rightarrow> game \<Rightarrow> game" where
  "gameplay elapsed rn s = next_level (play_core elapsed rn s)"

text \<open>The input blocks of a pass, up to the frame-rate test.\<close>

definition handle_input :: "tick_input \<Rightarrow> world \<Rightarrow> (game \<times> int) option" where
  "handle_input i w =
     (let s1 = menu_toggle (ev i) (now1 i) (game w);
          s2 = waiting_start (ev i) s1
      in case menu_actions (ev i) (s2, hiscore_file w) of
           None \<Rightarrow> None
         | Some (s3, d3) \<Rightarrow> Some (dpad_intent (ev i) s3, d3))"

text \<open>
  One pass of \<^verbatim>\<open>while running\<close>. When the frame is not due the source \<^verbatim>\<open>continue\<close>s:
  the input has been applied and nothing else happens. \<open>paused\<close> is computed before the
  death handling, as in the source.
\<close>

definition loop_body :: "tick_input \<Rightarrow> world \<Rightarrow> world option" where
  "loop_body i w =
     (case handle_input i w of
        None \<Rightarrow> None
      | Some (s4, d3) \<Rightarrow>
          if now2 i - last_frame w < frame_dt
          then Some (w\<lparr>game := s4, hiscore_file := d3\<rparr>)
          else
            let elapsed = now2 i - last_frame w;
                paused = waiting s4 \<or> menu s4 \<or> dead s4;
                (s5, d5) = death_handling elapsed (s4, d3);
                s6 = (if \<not> paused then gameplay elapsed (rnd i) s5 else s5)
            in Some \<lparr>game = s6, last_frame = now2 i, hiscore_file = d5\<rparr>)"

text \<open>
  The states of the loop: the program starts with \<^verbatim>\<open>new_game(load_hiscore())\<close>, whatever
  the file holds, and then runs passes.
\<close>

inductive reachable :: "world \<Rightarrow> bool" where
  start: "reachable \<lparr>game = new_game hs, last_frame = t0, hiscore_file = d\<rparr>"
| step: "reachable w \<Longrightarrow> loop_body i w = Some w' \<Longrightarrow> reachable w'"

section \<open>Facts about the constants\<close>

lemma WALLMAP_rectangular: "\<forall>row \<in> set WALLMAP. int (length row) = COLS"
  by (simp add: COLS_eq) (simp add: WALLMAP_def)

lemma cell_center_eq: "cell_center cx cy = (4 * cx + 2, 2 * cy + 2)"
  by (simp add: cell_center_def OX_def OY_def CELL_X_def CELL_Y_def)

lemma px_to_cell_row_range: "0 \<le> snd (px_to_cell x y) \<and> snd (px_to_cell x y) \<le> 30"
  by (simp add: px_to_cell_def Let_def ROWS_eq)

lemma tunnel_list:
  "filter (\<lambda>cy. is_open_for_ghost 0 cy \<and> is_open_for_ghost (COLS - 1) cy) [0..ROWS - 1] =
     [10, 11, 12, 14, 16, 17, 18]"
  by code_simp

lemma TUNNEL_ROWS_eq: "TUNNEL_ROWS = {10, 11, 12, 14, 16, 17, 18}"
  unfolding TUNNEL_ROWS_def tunnel_list by simp

section \<open>The standing masks in closed form\<close>

definition mask_wf :: "mask \<Rightarrow> bool" where
  "mask_wf m \<longleftrightarrow> length m = 64 \<and> (\<forall>i<64. length (m ! i) = 128)"

lemma blank_wf: "mask_wf blank_mask"
  by (simp add: mask_wf_def blank_mask_def H_def W_def)

lemma blank_can_stand: "\<not> can_stand blank_mask a b"
  by (auto simp: can_stand_def blank_mask_def H_def W_def)

lemma MAZE_W_eq: "MAZE_W = 112"
  by (simp add: MAZE_W_def OX_def COLS_eq CELL_X_def)

lemma setpix_wf: "mask_wf m \<Longrightarrow> mask_wf (setpix m x y)"
  by (auto simp: mask_wf_def setpix_def nth_list_update W_def H_def)

lemma can_stand_setpix:
  "mask_wf m \<Longrightarrow> can_stand (setpix m x y) a b \<longleftrightarrow>
     can_stand m a b \<or> (a = x \<and> b = y \<and> 0 \<le> x \<and> x < 112 \<and> 0 \<le> y \<and> y < 64)"
proof (cases "0 \<le> x \<and> x < 112 \<and> 0 \<le> y \<and> y < 64")
  case False
  then show ?thesis by (auto simp: setpix_def W_def H_def MAZE_W_eq)
next
  case True
  assume wf: "mask_wf m"
  have sp: "setpix m x y = m[nat y := (m ! nat y)[nat x := True]]"
    using True by (simp add: setpix_def W_def H_def MAZE_W_eq)
  show ?thesis
  proof (cases "0 \<le> a \<and> a < 128 \<and> 0 \<le> b \<and> b < 64")
    case False
    then show ?thesis using True by (auto simp: can_stand_def W_def H_def)
  next
    case ab: True
    have ly: "nat y < length m" and lb: "nat b < length m"
      using wf True ab by (auto simp: mask_wf_def)
    have lx: "nat x < length (m ! nat y)"
      using wf True by (auto simp: mask_wf_def)
    have "(m[nat y := (m ! nat y)[nat x := True]]) ! nat b ! nat a \<longleftrightarrow>
          m ! nat b ! nat a \<or> (a = x \<and> b = y)"
    proof (cases "b = y")
      case True
      then show ?thesis using ly lx \<open>0 \<le> x \<and> x < 112 \<and> 0 \<le> y \<and> y < 64\<close> ab
        by (cases "a = x") (auto simp: nth_list_update)
    next
      case False
      then have "nat b \<noteq> nat y" using True ab by auto
      then show ?thesis using False by (simp add: nth_list_update_neq)
    qed
    then show ?thesis using True ab by (auto simp: sp can_stand_def W_def H_def)
  qed
qed


definition adds :: "(mask \<Rightarrow> mask) \<Rightarrow> (int \<times> int) set \<Rightarrow> bool" where
  "adds f S \<longleftrightarrow> (\<forall>m. mask_wf m \<longrightarrow>
      mask_wf (f m) \<and> (\<forall>a b. can_stand (f m) a b \<longleftrightarrow> can_stand m a b \<or> (a, b) \<in> S))"

lemma adds_id: "adds (\<lambda>m. m) {}"
  by (simp add: adds_def)

lemma adds_comp: "adds f S \<Longrightarrow> adds g T \<Longrightarrow> adds (\<lambda>m. g (f m)) (S \<union> T)"
  by (auto simp: adds_def)

lemma adds_if: "(c \<Longrightarrow> adds f S) \<Longrightarrow> adds (\<lambda>m. if c then f m else m) (if c then S else {})"
  by (simp add: adds_def)

lemma adds_cong: "adds f S \<Longrightarrow> S = T \<Longrightarrow> adds f T"
  by simp

lemma adds_setpix:
  "adds (\<lambda>m. setpix m x y) (if 0 \<le> x \<and> x < 112 \<and> 0 \<le> y \<and> y < 64 then {(x, y)} else {})"
  by (auto simp: adds_def setpix_wf can_stand_setpix)

lemma adds_fold:
  "(\<And>t. t \<in> set ts \<Longrightarrow> adds (F t) (S t)) \<Longrightarrow> adds (fold F ts) (\<Union>t\<in>set ts. S t)"
proof (induction ts)
  case Nil
  then show ?case by (simp add: adds_def)
next
  case (Cons t ts)
  have a: "adds (F t) (S t)" using Cons.prems by simp
  have b: "adds (fold F ts) (\<Union>t\<in>set ts. S t)" using Cons by simp
  from adds_comp [OF a b] show ?case by (simp add: comp_def)
qed

lemma fold_pair:
  "fold (\<lambda>x (p, g). (F x p, G x g)) xs (p, g) = (fold F xs p, fold G xs g)"
  by (induction xs arbitrary: p g) auto


lemma open_pac_bounds: "is_open_for_pac cx cy \<Longrightarrow> 0 \<le> cx \<and> cx < 28 \<and> 0 \<le> cy \<and> cy < 31"
  by (auto simp: is_open_for_pac_def is_wall_def in_bounds_def ROWS_eq COLS_eq split: if_splits)

lemma open_ghost_bounds: "is_open_for_ghost cx cy \<Longrightarrow> 0 \<le> cx \<and> cx < 28 \<and> 0 \<le> cy \<and> cy < 31"
  by (auto simp: is_open_for_ghost_def is_wall_def in_bounds_def ROWS_eq COLS_eq
        is_gate_tile_def GATE_CY_def GATE_XS_def split: if_splits)

lemma open_pac_imp_ghost: "is_open_for_pac cx cy \<Longrightarrow> is_open_for_ghost cx cy"
  by (auto simp: is_open_for_pac_def is_open_for_ghost_def split: if_splits)

lemma open_pac_not_skip: "is_open_for_pac cx cy \<Longrightarrow> \<not> (is_wall cx cy \<and> \<not> is_gate_tile cx cy)"
  by (auto simp: is_open_for_pac_def split: if_splits)

lemma skip_iff_ghost: "(is_wall cx cy \<and> \<not> is_gate_tile cx cy) \<longleftrightarrow> \<not> is_open_for_ghost cx cy"
  by (auto simp: is_open_for_ghost_def)

definition band_tile :: "(int \<Rightarrow> int \<Rightarrow> bool) \<Rightarrow> int \<Rightarrow> int \<Rightarrow> mask \<Rightarrow> mask" where
  "band_tile opn cx cy p =
     (if opn cx cy
      then let p1 = setpix p (4 * cx + 2) (2 * cy + 2);
               p2 = (if opn (cx + 1) cy
                     then fold (\<lambda>xx m. setpix m xx (2 * cy + 2)) [4 * cx + 2..6 + 4 * cx] p1
                     else p1)
           in (if opn cx (cy + 1)
               then fold (\<lambda>yy m. setpix m (4 * cx + 2) yy) [2 * cy + 2..4 + 2 * cy] p2
               else p2)
      else p)"

lemma fold_same: "fold (\<lambda>x m. m) xs m = m"
  by (induction xs) auto

lemma fold_if_const:
  "fold (\<lambda>x m. if c then F x m else m) xs m = (if c then fold F xs m else m)"
  by (cases c) (simp_all add: fold_same)

lemma mask_tile_eq: "mask_tile cx cy (p, g) =
     (band_tile is_open_for_pac cx cy p, band_tile is_open_for_ghost cx cy g)"
proof (cases "is_open_for_ghost cx cy")
  case False
  then have "\<not> is_open_for_pac cx cy" using open_pac_imp_ghost by blast
  with False show ?thesis
    by (simp add: mask_tile_def band_tile_def skip_iff_ghost)
next
  case og: True
  have r: "is_open_for_ghost (cx + 1) cy \<Longrightarrow> cx + 1 < COLS"
    using open_ghost_bounds [of "cx + 1" cy] by (simp add: COLS_eq)
  have d: "is_open_for_ghost cx (cy + 1) \<Longrightarrow> cy + 1 < ROWS"
    using open_ghost_bounds [of cx "cy + 1"] by (simp add: ROWS_eq)
  have pr: "is_open_for_pac (cx + 1) cy \<Longrightarrow> is_open_for_ghost (cx + 1) cy"
    and pd: "is_open_for_pac cx (cy + 1) \<Longrightarrow> is_open_for_ghost cx (cy + 1)"
    by (rule open_pac_imp_ghost, assumption)+
  show ?thesis
    using og r d pr pd
    by (auto simp: mask_tile_def band_tile_def skip_iff_ghost cell_center_eq
          Let_def fold_pair fold_if_const fold_same)
qed


definition band_pix :: "(int \<Rightarrow> int \<Rightarrow> bool) \<Rightarrow> int \<Rightarrow> int \<Rightarrow> (int \<times> int) set" where
  "band_pix opn cx cy =
     (if opn cx cy
      then {(4 * cx + 2, 2 * cy + 2)} \<union>
           (if opn (cx + 1) cy then {(a, b). b = 2 * cy + 2 \<and> 4 * cx + 2 \<le> a \<and> a \<le> 4 * cx + 6} else {}) \<union>
           (if opn cx (cy + 1) then {(a, b). a = 4 * cx + 2 \<and> 2 * cy + 2 \<le> b \<and> b \<le> 2 * cy + 4} else {})
      else {})"

definition tiles_only :: "(int \<Rightarrow> int \<Rightarrow> bool) \<Rightarrow> bool" where
  "tiles_only opn \<longleftrightarrow> (\<forall>cx cy. opn cx cy \<longrightarrow> 0 \<le> cx \<and> cx < 28 \<and> 0 \<le> cy \<and> cy < 31)"

lemma adds_row:
  assumes "0 \<le> lo" "hi < 112" "0 \<le> y" "y < 64"
  shows "adds (fold (\<lambda>xx m. setpix m xx y) [lo..hi]) {(a, b). b = y \<and> lo \<le> a \<and> a \<le> hi}"
proof -
  have "adds (fold (\<lambda>xx m. setpix m xx y) [lo..hi])
          (\<Union>xx\<in>set [lo..hi]. if 0 \<le> xx \<and> xx < 112 \<and> 0 \<le> y \<and> y < 64 then {(xx, y)} else {})"
    by (rule adds_fold) (rule adds_setpix)
  moreover have "(\<Union>xx\<in>set [lo..hi]. if 0 \<le> xx \<and> xx < 112 \<and> 0 \<le> y \<and> y < 64 then {(xx, y)} else {})
      = {(a, b). b = y \<and> lo \<le> a \<and> a \<le> hi}"
    using assms by auto
  ultimately show ?thesis by simp
qed

lemma adds_col:
  assumes "0 \<le> x" "x < 112" "0 \<le> lo" "hi < 64"
  shows "adds (fold (\<lambda>yy m. setpix m x yy) [lo..hi]) {(a, b). a = x \<and> lo \<le> b \<and> b \<le> hi}"
proof -
  have "adds (fold (\<lambda>yy m. setpix m x yy) [lo..hi])
          (\<Union>yy\<in>set [lo..hi]. if 0 \<le> x \<and> x < 112 \<and> 0 \<le> yy \<and> yy < 64 then {(x, yy)} else {})"
    by (rule adds_fold) (rule adds_setpix)
  moreover have "(\<Union>yy\<in>set [lo..hi]. if 0 \<le> x \<and> x < 112 \<and> 0 \<le> yy \<and> yy < 64 then {(x, yy)} else {})
      = {(a, b). a = x \<and> lo \<le> b \<and> b \<le> hi}"
    using assms by auto
  ultimately show ?thesis by simp
qed

lemma adds_band_tile:
  assumes t: "tiles_only opn"
  shows "adds (band_tile opn cx cy) (band_pix opn cx cy)"
proof (cases "opn cx cy")
  case False
  then have "band_tile opn cx cy = (\<lambda>m. m)" by (intro ext) (simp add: band_tile_def)
  then show ?thesis using adds_id False by (simp add: band_pix_def)
next
  case True
  then have b: "0 \<le> cx" "cx < 28" "0 \<le> cy" "cy < 31" using t by (auto simp: tiles_only_def)
  have r: "opn (cx + 1) cy \<Longrightarrow> cx + 1 < 28" and d: "opn cx (cy + 1) \<Longrightarrow> cy + 1 < 31"
    using t by (auto simp: tiles_only_def)
  have a1: "adds (\<lambda>m. setpix m (4 * cx + 2) (2 * cy + 2)) {(4 * cx + 2, 2 * cy + 2)}"
    using adds_setpix [of "4 * cx + 2" "2 * cy + 2"] b by simp
  have a2: "adds (\<lambda>m. if opn (cx + 1) cy
                        then fold (\<lambda>xx m. setpix m xx (2 * cy + 2)) [4 * cx + 2..6 + 4 * cx] m else m)
      (if opn (cx + 1) cy then {(a, b). b = 2 * cy + 2 \<and> 4 * cx + 2 \<le> a \<and> a \<le> 6 + 4 * cx} else {})"
    by (rule adds_if, rule adds_row) (use b r in auto)
  have a3: "adds (\<lambda>m. if opn cx (cy + 1)
                        then fold (\<lambda>yy m. setpix m (4 * cx + 2) yy) [2 * cy + 2..4 + 2 * cy] m else m)
      (if opn cx (cy + 1) then {(a, b). a = 4 * cx + 2 \<and> 2 * cy + 2 \<le> b \<and> b \<le> 4 + 2 * cy} else {})"
    by (rule adds_if, rule adds_col) (use b d in auto)
  have "adds (band_tile opn cx cy)
     (({(4 * cx + 2, 2 * cy + 2)} \<union>
      (if opn (cx + 1) cy then {(a, b). b = 2 * cy + 2 \<and> 4 * cx + 2 \<le> a \<and> a \<le> 6 + 4 * cx} else {})) \<union>
      (if opn cx (cy + 1) then {(a, b). a = 4 * cx + 2 \<and> 2 * cy + 2 \<le> b \<and> b \<le> 4 + 2 * cy} else {}))"
  proof -
    have "band_tile opn cx cy =
        (\<lambda>m. if opn cx (cy + 1)
             then fold (\<lambda>yy m. setpix m (4 * cx + 2) yy) [2 * cy + 2..4 + 2 * cy]
                    (if opn (cx + 1) cy
                     then fold (\<lambda>xx m. setpix m xx (2 * cy + 2)) [4 * cx + 2..6 + 4 * cx]
                            (setpix m (4 * cx + 2) (2 * cy + 2))
                     else setpix m (4 * cx + 2) (2 * cy + 2))
             else (if opn (cx + 1) cy
                     then fold (\<lambda>xx m. setpix m xx (2 * cy + 2)) [4 * cx + 2..6 + 4 * cx]
                            (setpix m (4 * cx + 2) (2 * cy + 2))
                     else setpix m (4 * cx + 2) (2 * cy + 2)))"
      using True by (intro ext) (simp add: band_tile_def Let_def)
    then show ?thesis using adds_comp [OF adds_comp [OF a1 a2] a3] by simp
  qed
  moreover have "(({(4 * cx + 2, 2 * cy + 2)} \<union>
      (if opn (cx + 1) cy then {(a, b). b = 2 * cy + 2 \<and> 4 * cx + 2 \<le> a \<and> a \<le> 6 + 4 * cx} else {})) \<union>
      (if opn cx (cy + 1) then {(a, b). a = 4 * cx + 2 \<and> 2 * cy + 2 \<le> b \<and> b \<le> 4 + 2 * cy} else {}))
      = band_pix opn cx cy"
    using True by (auto simp: band_pix_def)
  ultimately show ?thesis by simp
qed


definition on_band :: "(int \<Rightarrow> int \<Rightarrow> bool) \<Rightarrow> int \<Rightarrow> int \<Rightarrow> bool" where
  "on_band opn a b =
     (let cx = (a - 2) div 4; cy = (b - 2) div 2
      in if (a - 2) mod 4 = 0
         then (if (b - 2) mod 2 = 0 then opn cx cy else opn cx cy \<and> opn cx (cy + 1))
         else (b - 2) mod 2 = 0 \<and> opn cx cy \<and> opn (cx + 1) cy)"

lemma band_pix_on_band:
  assumes "(a, b) \<in> band_pix opn cx cy"
  shows "on_band opn a b"
proof -
  from assms have o: "opn cx cy" by (auto simp: band_pix_def split: if_splits)
  from assms consider
      (c) "a = 4 * cx + 2" "b = 2 * cy + 2"
    | (h) "opn (cx + 1) cy" "b = 2 * cy + 2" "4 * cx + 2 \<le> a" "a \<le> 4 * cx + 6"
    | (v) "opn cx (cy + 1)" "a = 4 * cx + 2" "2 * cy + 2 \<le> b" "b \<le> 2 * cy + 4"
    by (auto simp: band_pix_def split: if_splits)
  then show ?thesis
  proof cases
    case c
    then show ?thesis using o by (simp add: on_band_def)
  next
    case h
    then consider "a = 4 * cx + 2" | "a = 4 * cx + 3" | "a = 4 * cx + 4" | "a = 4 * cx + 5"
      | "a = 4 * (cx + 1) + 2" by force
    then show ?thesis using o h(1,2) by cases (simp_all add: on_band_def add.commute)
  next
    case v
    then consider "b = 2 * cy + 2" | "b = 2 * cy + 3" | "b = 2 * (cy + 1) + 2" by force
    then show ?thesis using o v(1,2) by cases (simp_all add: on_band_def add.commute)
  qed
qed

lemma on_band_band_pix:
  assumes "on_band opn a b"
  shows "\<exists>cx cy. (a, b) \<in> band_pix opn cx cy"
proof -
  define cx where "cx = (a - 2) div 4"
  define cy where "cy = (b - 2) div 2"
  have a: "a = 4 * cx + 2 + (a - 2) mod 4" and b: "b = 2 * cy + 2 + (b - 2) mod 2"
    unfolding cx_def cy_def by presburger+
  have ra: "0 \<le> (a - 2) mod 4" "(a - 2) mod 4 < 4" and rb: "0 \<le> (b - 2) mod 2" "(b - 2) mod 2 < 2"
    by simp_all
  from assms have "(a, b) \<in> band_pix opn cx cy"
    unfolding on_band_def Let_def cx_def [symmetric] cy_def [symmetric]
    using a b ra rb
    by (auto simp: band_pix_def split: if_splits)
  then show ?thesis by blast
qed

lemma band_pix_iff: "(\<exists>cx cy. (a, b) \<in> band_pix opn cx cy) \<longleftrightarrow> on_band opn a b"
  using band_pix_on_band on_band_band_pix by blast


lemma tiles_only_pac: "tiles_only is_open_for_pac"
  using open_pac_bounds by (simp add: tiles_only_def)

lemma tiles_only_ghost: "tiles_only is_open_for_ghost"
  using open_ghost_bounds by (simp add: tiles_only_def)

lemma mask_tile_split:
  "(\<lambda>cx. mask_tile cx cy) =
     (\<lambda>cx (p, g). (band_tile is_open_for_pac cx cy p, band_tile is_open_for_ghost cx cy g))"
  by (intro ext) (auto simp: mask_tile_eq)

definition all_tiles :: "(int \<Rightarrow> int \<Rightarrow> bool) \<Rightarrow> mask \<Rightarrow> mask" where
  "all_tiles opn = fold (\<lambda>cy. fold (\<lambda>cx. band_tile opn cx cy) [0..COLS - 1]) [0..ROWS - 1]"

lemma tiles_fold_split:
  "fold (\<lambda>cy. fold (\<lambda>cx. mask_tile cx cy) [0..COLS - 1]) [0..ROWS - 1] (p, g) =
     (all_tiles is_open_for_pac p, all_tiles is_open_for_ghost g)"
proof -
  have "(\<lambda>cy. fold (\<lambda>cx. mask_tile cx cy) [0..COLS - 1]) =
        (\<lambda>cy (p, g). (fold (\<lambda>cx. band_tile is_open_for_pac cx cy) [0..COLS - 1] p,
                       fold (\<lambda>cx. band_tile is_open_for_ghost cx cy) [0..COLS - 1] g))"
    by (intro ext) (auto simp: mask_tile_split fold_pair)
  then show ?thesis by (simp add: fold_pair all_tiles_def)
qed

lemma adds_apply:
  "adds f S \<Longrightarrow> mask_wf m \<Longrightarrow> mask_wf (f m) \<and> (can_stand (f m) a b \<longleftrightarrow> can_stand m a b \<or> (a, b) \<in> S)"
  by (simp add: adds_def)

lemma adds_all_tiles:
  assumes "tiles_only opn"
  shows "adds (all_tiles opn) {(a, b). on_band opn a b}"
proof -
  have "adds (all_tiles opn)
          (\<Union>cy\<in>set [0..ROWS - 1]. \<Union>cx\<in>set [0..COLS - 1]. band_pix opn cx cy)"
    unfolding all_tiles_def
    by (intro adds_fold adds_band_tile assms)
  moreover have "(\<Union>cy\<in>set [0..ROWS - 1]. \<Union>cx\<in>set [0..COLS - 1]. band_pix opn cx cy)
      = {(a, b). on_band opn a b}"
  proof -
    have o: "\<And>cx cy p. p \<in> band_pix opn cx cy \<Longrightarrow> opn cx cy"
      by (auto simp: band_pix_def split: if_splits)
    have "\<And>cx cy p. p \<in> band_pix opn cx cy \<Longrightarrow> 0 \<le> cx \<and> cx \<le> 27 \<and> 0 \<le> cy \<and> cy \<le> 30"
    proof -
      fix cx cy p assume "p \<in> band_pix opn cx cy"
      then have "opn cx cy" by (rule o)
      then show "0 \<le> cx \<and> cx \<le> 27 \<and> 0 \<le> cy \<and> cy \<le> 30"
        using assms unfolding tiles_only_def by fastforce
    qed
    then have "(\<Union>cy\<in>set [0..ROWS - 1]. \<Union>cx\<in>set [0..COLS - 1]. band_pix opn cx cy)
       = {p. \<exists>cx cy. p \<in> band_pix opn cx cy}"
      unfolding ROWS_eq COLS_eq by (simp add: set_eq_iff) (metis atLeastAtMost_iff)
    also have "\<dots> = {(a, b). on_band opn a b}"
      using band_pix_iff [of _ _ opn] by auto
    finally show ?thesis .
  qed
  ultimately show ?thesis by simp
qed

lemma can_stand_pac_mask: "can_stand pac_mask a b \<longleftrightarrow> on_band is_open_for_pac a b"
proof -
  have "pac_mask = all_tiles is_open_for_pac blank_mask"
    by (simp add: pac_mask_def build_centerline_masks_def Let_def tiles_fold_split)
  then show ?thesis
    using adds_apply [OF adds_all_tiles [OF tiles_only_pac] blank_wf, of a b] blank_can_stand
    by simp
qed

lemma can_stand_ghost_mask: "can_stand ghost_mask a b \<longleftrightarrow> on_band is_open_for_ghost a b"
proof -
  let ?g0 = "all_tiles is_open_for_ghost blank_mask"
  let ?G = "\<Union>cx\<in>set GATE_XS. if 0 \<le> 4 * cx + 2 \<and> 4 * cx + 2 < 112 \<and> (0::int) \<le> 26 \<and> (26::int) < 64
                                  then {(4 * cx + 2, 26::int)} else {}"
  have g: "ghost_mask = fold (\<lambda>cx g. case cell_center cx GATE_CY of (x, y) \<Rightarrow> setpix g x y) GATE_XS ?g0"
    by (simp add: ghost_mask_def build_centerline_masks_def Let_def tiles_fold_split)
  have wf0: "mask_wf ?g0" and cs0: "\<And>a b. can_stand ?g0 a b \<longleftrightarrow> on_band is_open_for_ghost a b"
    using adds_apply [OF adds_all_tiles [OF tiles_only_ghost] blank_wf] blank_can_stand
    by simp_all
  have ad: "adds (fold (\<lambda>cx g. setpix g (4 * cx + 2) 26) GATE_XS) ?G"
    by (rule adds_fold) (rule adds_setpix)
  have eq: "(\<lambda>cx g. case cell_center cx GATE_CY of (x, y) \<Rightarrow> setpix g x y)
       = (\<lambda>cx g. setpix g (4 * cx + 2) 26)"
    by (intro ext) (simp add: cell_center_eq GATE_CY_def)
  have "can_stand ghost_mask a b \<longleftrightarrow> on_band is_open_for_ghost a b \<or> (a, b) \<in> ?G"
    using adds_apply [OF ad wf0, of a b] cs0 by (simp add: g eq)
  moreover have "on_band is_open_for_ghost a b" if "(a, b) \<in> ?G"
  proof -
    from that obtain cx where "11 \<le> cx" "cx \<le> 16" "a = 4 * cx + 2" "b = 26"
      by (auto simp: GATE_XS_def split: if_splits)
    then show ?thesis
      by (auto simp: on_band_def is_open_for_ghost_def is_gate_tile_def GATE_CY_def GATE_XS_def)
  qed
  ultimately show ?thesis by blast
qed

section \<open>Tunnel wrap: the claims\<close>

text \<open>
  Claim C5. An entity on a tunnel row (the row of \<open>px_to_cell\<close> is in \<open>TUNNEL_ROWS\<close>) that
  moves left and is at or left of the centre pixel of column 0 is put on the centre pixel
  of column \<open>COLS - 1\<close> of the same row; moving right at or right of the centre of column
  \<open>COLS - 1\<close> it is put on the centre of column 0. The function returns a position only:
  the direction is an argument it cannot change.
\<close>

theorem tunnel_wrap_edges:
  assumes "snd (px_to_cell x y) \<in> TUNNEL_ROWS"
  shows "(dirx < 0 \<and> x \<le> fst (cell_center 0 (snd (px_to_cell x y))) \<longrightarrow>
            tunnel_wrap_on_centerline x y dirx = cell_center (COLS - 1) (snd (px_to_cell x y))) \<and>
         (0 < dirx \<and> fst (cell_center (COLS - 1) (snd (px_to_cell x y))) \<le> x \<longrightarrow>
            tunnel_wrap_on_centerline x y dirx = cell_center 0 (snd (px_to_cell x y)))"
  using assms
  by (auto simp: tunnel_wrap_on_centerline_def Let_def cell_center_eq split: prod.splits)

theorem tunnel_wrap_edges_witness:
  "snd (px_to_cell 2 30) \<in> TUNNEL_ROWS \<and> tunnel_wrap_on_centerline 2 30 (-1) = (110, 30) \<and>
   snd (px_to_cell 110 30) \<in> TUNNEL_ROWS \<and> tunnel_wrap_on_centerline 110 30 1 = (2, 30)"
proof -
  have c1: "px_to_cell 2 30 = (0, 14)" and c2: "px_to_cell 110 30 = (27, 14)"
    by code_simp+
  have r1: "snd (px_to_cell 2 30) \<in> TUNNEL_ROWS" and r2: "snd (px_to_cell 110 30) \<in> TUNNEL_ROWS"
    by (simp_all add: c1 c2 TUNNEL_ROWS_eq)
  from tunnel_wrap_edges [OF r1, of "-1"] tunnel_wrap_edges [OF r2, of 1] r1 r2
  show ?thesis by (simp add: c1 c2 cell_center_eq COLS_eq)
qed

text \<open>
  Claim C10. On a tunnel row the wrap step always returns the centre y of that row as the
  vertical coordinate, in all three of its branches, so also when no edge is crossed (then
  the result is \<open>(x, ly)\<close>); off the tunnel rows it returns its argument unchanged.
\<close>

theorem tunnel_wrap_vertical:
  "(snd (px_to_cell x y) \<in> TUNNEL_ROWS \<longrightarrow>
      snd (tunnel_wrap_on_centerline x y dirx) = snd (cell_center 0 (snd (px_to_cell x y)))) \<and>
   (snd (px_to_cell x y) \<in> TUNNEL_ROWS \<and>
    \<not> (dirx < 0 \<and> x \<le> fst (cell_center 0 (snd (px_to_cell x y)))) \<and>
    \<not> (0 < dirx \<and> fst (cell_center (COLS - 1) (snd (px_to_cell x y))) \<le> x) \<longrightarrow>
      tunnel_wrap_on_centerline x y dirx = (x, snd (cell_center 0 (snd (px_to_cell x y))))) \<and>
   (snd (px_to_cell x y) \<notin> TUNNEL_ROWS \<longrightarrow> tunnel_wrap_on_centerline x y dirx = (x, y))"
  by (auto simp: tunnel_wrap_on_centerline_def Let_def cell_center_eq split: prod.splits)

theorem tunnel_wrap_vertical_witness:
  "snd (px_to_cell 26 29) \<in> TUNNEL_ROWS \<and> tunnel_wrap_on_centerline 26 29 (-1) = (26, 30) \<and>
   snd (px_to_cell 58 60) \<notin> TUNNEL_ROWS \<and> tunnel_wrap_on_centerline 58 60 (-1) = (58, 60)"
proof -
  have c1: "px_to_cell 26 29 = (6, 14)" and c2: "px_to_cell 58 60 = (14, 29)"
    by code_simp+
  from tunnel_wrap_vertical [of 26 29 "-1"] tunnel_wrap_vertical [of 58 60 "-1"]
  show ?thesis by (simp add: c1 c2 TUNNEL_ROWS_eq cell_center_eq COLS_eq)
qed

section \<open>Level completion\<close>





lemma fold_ghosts_all:
  "fold (\<lambda>name gs. gs(name := f name)) GHOSTS g0 = f"
proof
  fix n show "fold (\<lambda>name gs. gs(name := f name)) GHOSTS g0 n = f n"
    by (cases n) (simp_all add: GHOSTS_def)
qed

lemma reset_level_fields:
  "pellets (reset_level s) = fst (build_pellets (flood_reachable pick_start_tile_pac))"
  "power_pellets (reset_level s) = snd (build_pellets (flood_reachable pick_start_tile_pac))"
  "(px (reset_level s), py (reset_level s)) =
      cell_center (fst pick_start_tile_pac) (snd pick_start_tile_pac)"
  "dir (reset_level s) = DIRS_L" "want (reset_level s) = DIRS_L" "p_acc (reset_level s) = 0"
  "ghosts (reset_level s) = home_ghost" "g_acc (reset_level s) = (\<lambda>n. 0)"
  "fright_chain (reset_level s) = 0" "waiting (reset_level s)"
  "menu (reset_level s) = False" "menu_idx (reset_level s) = 0"
  "level (reset_level s) = level s" "lives (reset_level s) = lives s"
  "score (reset_level s) = score s" "hiscore (reset_level s) = hiscore s"
  "dead (reset_level s) = dead s" "dead_t (reset_level s) = dead_t s"
  "last_menu_toggle (reset_level s) = last_menu_toggle s"
  by (simp_all add: reset_level_def Let_def fold_ghosts_all split: prod.splits)











lemma new_game_fields:
  "score (new_game h) = 0" "hiscore (new_game h) = h" "lives (new_game h) = 3"
  "level (new_game h) = 1" "dead (new_game h) = False" "waiting (new_game h)"
  "menu (new_game h) = False" "fright_chain (new_game h) = 0"
  "ghosts (new_game h) = home_ghost" "g_acc (new_game h) = (\<lambda>n. 0)"
  "dir (new_game h) = DIRS_L" "want (new_game h) = DIRS_L" "p_acc (new_game h) = 0"
  "(px (new_game h), py (new_game h)) = cell_center (fst pick_start_tile_pac) (snd pick_start_tile_pac)"
  by (simp_all add: new_game_def reset_level_fields)





lemma death_handling_alive: "\<not> dead s \<Longrightarrow> death_handling e (s, d) = (s, d)"
  by (simp add: death_handling_def)

lemma loop_body_playing:
  assumes "handle_input i w = Some (s, d)" "\<not> now2 i - last_frame w < frame_dt"
    "\<not> waiting s" "\<not> menu s" "\<not> dead s"
  shows "loop_body i w =
     Some \<lparr>game = gameplay (now2 i - last_frame w) (rnd i) s, last_frame = now2 i, hiscore_file = d\<rparr>"
  using assms by (simp add: loop_body_def Let_def death_handling_alive)




lemma pick_start_eq: "pick_start_tile_pac = (14, 29)"
  by code_simp


section \<open>Ghost direction choice\<close>

lemma hd_insort_key:
  "hd (insort_key f x xs) = (if xs = [] \<or> f x \<le> f (hd xs) then x else hd xs)"
  by (cases xs) auto

lemma sort_key_Cons: "sort_key f (x # xs) = insort_key f x (sort_key f xs)"
  by (simp add: sort_key_def)

definition first_best :: "('a \<Rightarrow> int) \<Rightarrow> 'a list \<Rightarrow> 'a \<Rightarrow> bool" where
  "first_best f xs r \<longleftrightarrow>
     (\<exists>ys zs. xs = ys @ r # zs \<and> (\<forall>y\<in>set ys. f r < f y) \<and> (\<forall>z\<in>set zs. f r \<le> f z))"

lemma first_bestI:
  "xs = ys @ r # zs \<Longrightarrow> (\<forall>y\<in>set ys. f r < f y) \<Longrightarrow> (\<forall>z\<in>set zs. f r \<le> f z) \<Longrightarrow>
   first_best f xs r"
  unfolding first_best_def by blast

lemma sort_key_first_stable:
  assumes "xs \<noteq> []"
  shows "first_best f xs (sort_key f xs ! 0)"
  using assms
proof (induction xs)
  case Nil
  then show ?case by simp
next
  case (Cons x xs)
  show ?case
  proof (cases "xs = []")
    case True
    have "first_best f [x] x" by (rule first_bestI [of _ "[]" _ "[]"]) simp_all
    then show ?thesis by (simp add: True)
  next
    case False
    let ?r = "sort_key f xs ! 0"
    from Cons.IH [OF False] obtain ys zs where
      d: "xs = ys @ ?r # zs" and lt: "\<forall>y\<in>set ys. f ?r < f y" and le: "\<forall>z\<in>set zs. f ?r \<le> f z"
      unfolding first_best_def by blast
    have ne: "sort_key f xs \<noteq> []" using False by (metis length_sort length_0_conv)
    then have hd0: "hd (sort_key f xs) = ?r" by (simp add: hd_conv_nth)
    have ne2: "insort_key f x (sort_key f xs) \<noteq> []" by (cases "sort_key f xs") auto
    have "sort_key f (x # xs) ! 0 = hd (insort_key f x (sort_key f xs))"
      using ne2 by (simp add: sort_key_Cons hd_conv_nth)
    also have "\<dots> = (if f x \<le> f ?r then x else ?r)"
      using ne hd0 by (simp add: hd_insort_key)
    finally have r: "sort_key f (x # xs) ! 0 = (if f x \<le> f ?r then x else ?r)" .
    show ?thesis
    proof (cases "f x \<le> f ?r")
      case True
      have all: "\<forall>z\<in>set xs. f ?r \<le> f z"
      proof
        fix z assume "z \<in> set xs"
        then have "z \<in> set (ys @ ?r # zs)" using d by simp
        then have "z \<in> set ys \<or> z = ?r \<or> z \<in> set zs" by auto
        then show "f ?r \<le> f z" using lt le by auto
      qed
      have "first_best f (x # xs) x"
      proof (rule first_bestI [of _ "[]" _ xs])
        show "x # xs = [] @ x # xs" by simp
        show "\<forall>y\<in>set []. f x < f y" by simp
        show "\<forall>z\<in>set xs. f x \<le> f z" using all True by auto
      qed
      then show ?thesis using True by (simp only: r if_True)
    next
      case nle: False
      have "first_best f (x # xs) ?r"
      proof (rule first_bestI [of _ "x # ys" _ zs])
        show "x # xs = (x # ys) @ ?r # zs" using d by simp
        show "\<forall>y\<in>set (x # ys). f ?r < f y" using lt nle by auto
        show "\<forall>z\<in>set zs. f ?r \<le> f z" by (rule le)
      qed
      then show ?thesis using nle by (simp only: r if_False)
    qed
  qed
qed

lemma first_best_min:
  assumes "first_best f xs r"
  shows "r \<in> set xs" and "\<forall>c\<in>set xs. f r \<le> f c"
proof -
  from assms obtain ys zs where
    d: "xs = ys @ r # zs" and lt: "\<forall>y\<in>set ys. f r < f y" and le: "\<forall>z\<in>set zs. f r \<le> f z"
    unfolding first_best_def by blast
  show "r \<in> set xs" by (subst d) simp
  show "\<forall>c\<in>set xs. f r \<le> f c"
  proof
    fix c assume "c \<in> set xs"
    then have "c \<in> set (ys @ r # zs)" using d by simp
    then have "c \<in> set ys \<or> c = r \<or> c \<in> set zs" by auto
    then show "f r \<le> f c" using lt le by auto
  qed
qed

lemma take2_pick_in_set:
  assumes "xs \<noteq> []"
  shows "take 2 xs ! (k mod length (take 2 xs)) \<in> set xs"
proof -
  have "0 < length (take 2 xs)" using assms by (cases xs) auto
  then have "k mod length (take 2 xs) < length (take 2 xs)" by (rule mod_less_divisor)
  then have "take 2 xs ! (k mod length (take 2 xs)) \<in> set (take 2 xs)" by (rule nth_mem)
  then show ?thesis by (auto dest: in_set_takeD)
qed

text \<open>The list \<^verbatim>\<open>choices\<close> of the source, and the test of its random branch.\<close>

definition ghost_choices :: "mask \<Rightarrow> int \<Rightarrow> int \<Rightarrow> int \<times> int \<Rightarrow> (int \<times> int) list" where
  "ghost_choices m x y d =
     (let dirs = ghost_possible_dirs m x y;
          nonrev = filter (\<lambda>c. c \<noteq> (- fst d, - snd d)) dirs
      in if nonrev = [] then dirs else nonrev)"

definition random_branch :: "mask \<Rightarrow> int \<Rightarrow> int \<Rightarrow> int \<times> int \<Rightarrow> bool \<Rightarrow> real \<times> nat \<Rightarrow> bool" where
  "random_branch m x y d frightened rk \<longleftrightarrow>
     1 < length (ghost_choices m x y d) \<and> fst rk < (if \<not> frightened then 0.25 else 0.10)"

definition pixel_dist :: "int \<Rightarrow> int \<Rightarrow> int \<times> int \<Rightarrow> int \<times> int \<Rightarrow> int" where
  "pixel_dist x y target c = \<bar>fst target - (x + fst c)\<bar> + \<bar>snd target - (y + snd c)\<bar>"

text \<open>The distance the spec describes: from the centre of the tile entered in direction
  \<open>c\<close>, the neighbour of the ghost's tile, to the target pixel.\<close>

definition resulting_tile_dist :: "int \<Rightarrow> int \<Rightarrow> int \<times> int \<Rightarrow> int \<times> int \<Rightarrow> int" where
  "resulting_tile_dist x y target c =
     (let (cx, cy) = px_to_cell x y; (tx, ty) = cell_center (cx + fst c) (cy + snd c)
      in \<bar>fst target - tx\<bar> + \<bar>snd target - ty\<bar>)"

lemma ghost_choose_dir_unfold:
  "ghost_choose_dir x y d target frightened m rk =
     (if ghost_possible_dirs m x y = [] then (0, 0)
      else if random_branch m x y d frightened rk
           then take 2 (sort_key (score_dir x y target frightened) (ghost_choices m x y d)) !
                  (snd rk mod length (take 2 (sort_key (score_dir x y target frightened) (ghost_choices m x y d))))
           else sort_key (score_dir x y target frightened) (ghost_choices m x y d) ! 0)"
  by (simp add: ghost_choose_dir_def ghost_choices_def random_branch_def Let_def)

lemma ghost_choices_nonrev:
  assumes "\<exists>c\<in>set (ghost_possible_dirs m x y). c \<noteq> (- fst d, - snd d)"
  shows "set (ghost_choices m x y d) = {c \<in> set (ghost_possible_dirs m x y). c \<noteq> (- fst d, - snd d)}"
    and "ghost_choices m x y d \<noteq> []"
proof -
  have "filter (\<lambda>c. c \<noteq> (- fst d, - snd d)) (ghost_possible_dirs m x y) \<noteq> []"
    using assms by (auto simp: filter_empty_conv)
  then show "set (ghost_choices m x y d) = {c \<in> set (ghost_possible_dirs m x y). c \<noteq> (- fst d, - snd d)}"
    and "ghost_choices m x y d \<noteq> []"
    by (auto simp: ghost_choices_def Let_def)
qed

lemma score_dir_pixel:
  "score_dir x y target frightened c =
     (if frightened then - pixel_dist x y target c else pixel_dist x y target c)"
  by (simp add: score_dir_def pixel_dist_def Let_def)

lemma ghost_choices_nonrev_list:
  assumes "\<exists>c\<in>set (ghost_possible_dirs m x y). c \<noteq> (- fst d, - snd d)"
  shows "ghost_choices m x y d = filter (\<lambda>c. c \<noteq> (- fst d, - snd d)) (ghost_possible_dirs m x y)"
proof -
  have "filter (\<lambda>c. c \<noteq> (- fst d, - snd d)) (ghost_possible_dirs m x y) \<noteq> []"
    using assms by (auto simp: filter_empty_conv)
  then show ?thesis by (simp add: ghost_choices_def Let_def)
qed

text \<open>
  Claim C3, as the source has it. When some legal direction is not the reverse of the
  current one, \<open>ghost_choose_dir\<close> returns a legal direction that is not the reverse, in
  both branches (so the reverse comes back only at a dead end). When the random branch is
  not taken, the returned direction has the least Manhattan distance to the target among
  the legal non-reverse directions when not frightened, the greatest when frightened,
  and ties go to the first direction in the order of \<open>DIR_LIST\<close> (left, right, up, down):
  the legal non-reverse directions, listed in that order, split at the returned one, and
  every direction before it is strictly worse. The distance is measured from the pixel
  one step in that direction, \<open>(x + dx, y + dy)\<close>, not from the centre of the next tile.
\<close>

theorem ghost_choose_dir_policy:
  assumes "\<exists>c\<in>set (ghost_possible_dirs m x y). c \<noteq> (- fst d, - snd d)"
  shows "ghost_choose_dir x y d target frightened m rk \<in> set (ghost_possible_dirs m x y) \<and>
         ghost_choose_dir x y d target frightened m rk \<noteq> (- fst d, - snd d) \<and>
         (\<not> random_branch m x y d frightened rk \<longrightarrow>
            (\<forall>c\<in>set (ghost_possible_dirs m x y). c \<noteq> (- fst d, - snd d) \<longrightarrow>
               (if frightened
                then pixel_dist x y target c
                       \<le> pixel_dist x y target (ghost_choose_dir x y d target frightened m rk)
                else pixel_dist x y target (ghost_choose_dir x y d target frightened m rk)
                       \<le> pixel_dist x y target c)) \<and>
            (\<exists>before after.
               filter (\<lambda>c. can_stand m (x + fst c) (y + snd c) \<and> c \<noteq> (- fst d, - snd d))
                      [DIRS_L, DIRS_R, DIRS_U, DIRS_D]
                 = before @ ghost_choose_dir x y d target frightened m rk # after \<and>
               (\<forall>c\<in>set before.
                  if frightened
                  then pixel_dist x y target c
                         < pixel_dist x y target (ghost_choose_dir x y d target frightened m rk)
                  else pixel_dist x y target (ghost_choose_dir x y d target frightened m rk)
                         < pixel_dist x y target c)))"
proof -
  let ?ch = "ghost_choices m x y d"
  let ?f = "score_dir x y target frightened"
  let ?r = "ghost_choose_dir x y d target frightened m rk"
  note ch = ghost_choices_nonrev [OF assms]
  have dirs: "ghost_possible_dirs m x y \<noteq> []" using assms by auto
  have sne: "sort_key ?f ?ch \<noteq> []" using ch(2) by (metis length_sort length_0_conv)
  have chl: "?ch = filter (\<lambda>c. can_stand m (x + fst c) (y + snd c) \<and> c \<noteq> (- fst d, - snd d))
                     [DIRS_L, DIRS_R, DIRS_U, DIRS_D]"
    unfolding ghost_choices_nonrev_list [OF assms] ghost_possible_dirs_def DIR_LIST_def
    by (simp only: filter_filter case_prod_beta)
  have mem: "?r \<in> set ?ch"
  proof (cases "random_branch m x y d frightened rk")
    case True
    then have "?r = take 2 (sort_key ?f ?ch) ! (snd rk mod length (take 2 (sort_key ?f ?ch)))"
      using dirs by (simp add: ghost_choose_dir_unfold)
    then have "?r \<in> set (sort_key ?f ?ch)" using take2_pick_in_set [OF sne] by simp
    then show ?thesis by simp
  next
    case False
    then have "?r = sort_key ?f ?ch ! 0" using dirs by (simp add: ghost_choose_dir_unfold)
    then show ?thesis using first_best_min(1) [OF sort_key_first_stable [OF ch(2), of ?f]] by simp
  qed
  have fb: "first_best ?f ?ch ?r" if "\<not> random_branch m x y d frightened rk"
  proof -
    from that have "?r = sort_key ?f ?ch ! 0" using dirs by (simp add: ghost_choose_dir_unfold)
    then show ?thesis using sort_key_first_stable [OF ch(2), of ?f] by simp
  qed
  have r1: "?r \<in> set (ghost_possible_dirs m x y)" and r2: "?r \<noteq> (- fst d, - snd d)"
    using mem unfolding ch(1) by simp_all
  have r3: "if frightened then pixel_dist x y target c \<le> pixel_dist x y target ?r
            else pixel_dist x y target ?r \<le> pixel_dist x y target c"
    if nr: "\<not> random_branch m x y d frightened rk"
      and c: "c \<in> set (ghost_possible_dirs m x y)" "c \<noteq> (- fst d, - snd d)" for c
  proof -
    from c have "c \<in> set ?ch" unfolding ch(1) by simp
    with first_best_min(2) [OF fb [OF nr]] have "?f ?r \<le> ?f c" by blast
    then show ?thesis by (cases frightened) (simp_all add: score_dir_pixel)
  qed
  have r4: "\<exists>before after.
               filter (\<lambda>c. can_stand m (x + fst c) (y + snd c) \<and> c \<noteq> (- fst d, - snd d))
                      [DIRS_L, DIRS_R, DIRS_U, DIRS_D] = before @ ?r # after \<and>
               (\<forall>c\<in>set before.
                  if frightened then pixel_dist x y target c < pixel_dist x y target ?r
                  else pixel_dist x y target ?r < pixel_dist x y target c)"
    if nr: "\<not> random_branch m x y d frightened rk"
  proof -
    from fb [OF nr] obtain ys zs where
      d: "?ch = ys @ ?r # zs" and lt: "\<forall>c\<in>set ys. ?f ?r < ?f c"
      unfolding first_best_def by blast
    have "\<forall>c\<in>set ys. if frightened then pixel_dist x y target c < pixel_dist x y target ?r
                       else pixel_dist x y target ?r < pixel_dist x y target c"
      using lt by (cases frightened) (simp_all add: score_dir_pixel)
    with d show ?thesis unfolding chl by blast
  qed
  from r1 r2 r3 r4 show ?thesis by blast
qed

lemma ghost_dirs_50_12:
  "ghost_possible_dirs ghost_mask 50 12 = [(-1, 0), (1, 0), (0, -1)]"
proof -
  have o: "is_open_for_ghost 11 5" "is_open_for_ghost 12 5" "is_open_for_ghost 13 5"
    "is_open_for_ghost 12 4" "\<not> is_open_for_ghost 12 6"
    by code_simp+
  show ?thesis
    by (simp add: ghost_possible_dirs_def DIR_LIST_def DIRS_L_def DIRS_R_def DIRS_U_def DIRS_D_def
          can_stand_ghost_mask on_band_def o)
qed

lemma ghost_dirs_50_12_choices:
  "filter (\<lambda>c. can_stand ghost_mask (50 + fst c) (12 + snd c) \<and>
                c \<noteq> (- fst (-1, 0 :: int), - snd (-1 :: int, 0)))
          [DIRS_L, DIRS_R, DIRS_U, DIRS_D] = [(-1, 0), (0, -1)]"
proof -
  have o: "is_open_for_ghost 11 5" "is_open_for_ghost 12 5" "is_open_for_ghost 13 5"
    "is_open_for_ghost 12 4" "\<not> is_open_for_ghost 12 6"
    by code_simp+
  show ?thesis
    by (simp add: DIRS_L_def DIRS_R_def DIRS_U_def DIRS_D_def
          can_stand_ghost_mask on_band_def o)
qed

theorem ghost_choose_dir_policy_witness:
  "(\<exists>c\<in>set (ghost_possible_dirs ghost_mask 50 12). c \<noteq> (1, 0)) \<and>
   \<not> random_branch ghost_mask 50 12 (-1, 0) False (1 / 2, 0) \<and>
   ghost_choose_dir 50 12 (-1, 0) (58, 60) False ghost_mask (1 / 2, 0) \<noteq> (1, 0) \<and>
   pixel_dist 50 12 (58, 60) (ghost_choose_dir 50 12 (-1, 0) (58, 60) False ghost_mask (1 / 2, 0))
     \<le> pixel_dist 50 12 (58, 60) (0, -1) \<and>
   (\<exists>before after.
      [(-1, 0), (0, -1)]
        = before @ ghost_choose_dir 50 12 (-1, 0) (58, 60) False ghost_mask (1 / 2, 0) # after \<and>
      (\<forall>c\<in>set before.
         pixel_dist 50 12 (58, 60) (ghost_choose_dir 50 12 (-1, 0) (58, 60) False ghost_mask (1 / 2, 0))
           < pixel_dist 50 12 (58, 60) c))"
proof -
  have h: "\<exists>c\<in>set (ghost_possible_dirs ghost_mask 50 12). c \<noteq> (- fst (-1, 0 :: int), - snd (-1 :: int, 0))"
    by (simp add: ghost_dirs_50_12)
  have nr: "\<not> random_branch ghost_mask 50 12 (-1, 0) False (1 / 2, 0)"
    by (simp add: random_branch_def)
  from ghost_choose_dir_policy [OF h, of "(58, 60)" False "(1 / 2, 0)",
      unfolded ghost_dirs_50_12_choices] nr h
  show ?thesis by (simp add: ghost_dirs_50_12)
qed

text \<open>
  Claim C3 as the spec words it, with the distance taken from the resulting tile: at the
  centre of tile (12, 5), moving left, target (58, 60), not frightened, random branch not
  taken. Up is legal and not the reverse, and the tile above is nearer to the target
  (58) than the tile to the left (60); the source scores the pixel one step away, where
  both are 57, and the stable sort keeps left, the first in \<open>DIR_LIST\<close>.
\<close>

theorem ghost_choose_dir_tile_counterexample:
  "is_at_tile_center 50 12 \<and>
   (0, -1) \<in> set (ghost_possible_dirs ghost_mask 50 12) \<and> (0, -1) \<noteq> (- (-1), - (0::int)) \<and>
   \<not> random_branch ghost_mask 50 12 (-1, 0) False (1 / 2, 0) \<and>
   ghost_choose_dir 50 12 (-1, 0) (58, 60) False ghost_mask (1 / 2, 0) = (-1, 0) \<and>
   resulting_tile_dist 50 12 (58, 60) (0, -1) = 58 \<and>
   resulting_tile_dist 50 12 (58, 60) (-1, 0) = 60 \<and>
   pixel_dist 50 12 (58, 60) (0, -1) = 57 \<and> pixel_dist 50 12 (58, 60) (-1, 0) = 57"
proof -
  have c: "px_to_cell 50 12 = (12, 5)" by code_simp
  have t: "is_at_tile_center 50 12" by (simp add: is_at_tile_center_def c cell_center_eq)
  have nr: "\<not> random_branch ghost_mask 50 12 (-1, 0) False (1 / 2, 0)"
    by (simp add: random_branch_def)
  have ch: "ghost_choices ghost_mask 50 12 (-1, 0) = [(-1, 0), (0, -1)]"
    by (simp add: ghost_choices_def ghost_dirs_50_12)
  have r: "ghost_choose_dir 50 12 (-1, 0) (58, 60) False ghost_mask (1 / 2, 0) = (-1, 0)"
    using nr by (simp add: ghost_choose_dir_unfold ghost_dirs_50_12 ch score_dir_def)
  show ?thesis
    using t nr r
    by (simp add: ghost_dirs_50_12 resulting_tile_dist_def c cell_center_eq pixel_dist_def)
qed

section \<open>Flood fill and pellets\<close>

text \<open>
  The reachability that claim C8 speaks of, in the spec's words: a tile is reachable
  from the start when a chain of moves to horizontally or vertically adjacent tiles,
  each in bounds and open for the player, leads to it.
\<close>

definition pac_step :: "((int \<times> int) \<times> (int \<times> int)) set" where
  "pac_step = {(a, b). b \<in> nbr a ` set DIR_LIST \<and> b \<in> open_tiles}"

definition walk_reachable :: "int \<times> int \<Rightarrow> (int \<times> int) set" where
  "walk_reachable start = pac_step\<^sup>* `` {start}"

definition flood_inv :: "int \<times> int \<Rightarrow> (int \<times> int) list \<Rightarrow> (int \<times> int) set \<Rightarrow> bool" where
  "flood_inv start q seen \<longleftrightarrow>
     set q \<subseteq> seen \<and> start \<in> seen \<and> seen \<subseteq> walk_reachable start \<and>
     (\<forall>a\<in>seen - set q. \<forall>b. (a, b) \<in> pac_step \<longrightarrow> b \<in> seen)"

lemma flood_inv_done:
  assumes "flood_inv start [] seen"
  shows "seen = walk_reachable start"
proof
  show "seen \<subseteq> walk_reachable start" using assms by (simp add: flood_inv_def)
  show "walk_reachable start \<subseteq> seen"
  proof
    fix t assume "t \<in> walk_reachable start"
    then have "(start, t) \<in> pac_step\<^sup>*" by (simp add: walk_reachable_def)
    then show "t \<in> seen"
    proof (induction rule: rtrancl_induct)
      case base
      then show ?case using assms by (simp add: flood_inv_def)
    next
      case (step y z)
      have "\<forall>a\<in>seen. \<forall>b. (a, b) \<in> pac_step \<longrightarrow> b \<in> seen"
        using assms by (simp add: flood_inv_def)
      with step show ?case by blast
    qed
  qed
qed

lemma flood_inv_step:
  assumes inv: "flood_inv start (xy # q) seen"
    and e: "flood_expand xy (q, seen) = (q', seen')"
  shows "flood_inv start q' seen'"
proof -
  note p = flood_expand_props [OF e]
  have xy: "xy \<in> seen" "xy \<in> walk_reachable start" using inv by (auto simp: flood_inv_def)
  have new: "seen' - seen \<subseteq> walk_reachable start"
  proof
    fix b assume "b \<in> seen' - seen"
    then have "(xy, b) \<in> pac_step" using p(1) by (auto simp: pac_step_def)
    then show "b \<in> walk_reachable start"
      using xy(2) by (auto simp: walk_reachable_def intro: rtrancl_into_rtrancl)
  qed
  have closed: "b \<in> seen'" if "a \<in> seen' - set q'" "(a, b) \<in> pac_step" for a b
  proof -
    from that(1) p(3) have a: "a \<in> seen" "a \<notin> set q" by auto
    show ?thesis
    proof (cases "a = xy")
      case True
      then show ?thesis using that(2) p(1) by (auto simp: pac_step_def)
    next
      case False
      then have "a \<in> seen - set (xy # q)" using a by simp
      then have "b \<in> seen" using inv that(2) unfolding flood_inv_def by blast
      then show ?thesis using p(1) by auto
    qed
  qed
  show ?thesis
    unfolding flood_inv_def
    using inv p(1,3) new closed by (auto simp: flood_inv_def)
qed

lemma flood_loop_correct:
  "flood_inv start q seen \<Longrightarrow> flood_loop q seen = walk_reachable start"
proof (induction q seen rule: flood_loop.induct)
  case (1 seen)
  then show ?case by (simp add: flood_inv_done)
next
  case (2 xy q seen)
  obtain q' seen' where e: "flood_expand xy (q, seen) = (q', seen')"
    by (cases "flood_expand xy (q, seen)")
  from flood_inv_step [OF "2.prems" e] have "flood_inv start q' seen'" .
  then have "flood_loop q' seen' = walk_reachable start"
    using "2.IH" [OF e [symmetric]] by simp
  then show ?case using e by simp
qed

lemma flood_reachable_correct:
  "flood_reachable start =
     (if is_open_for_pac (fst start) (snd start) then walk_reachable start else {})"
proof (cases "is_open_for_pac (fst start) (snd start)")
  case False
  then show ?thesis by (simp add: flood_reachable_def)
next
  case True
  have "flood_inv start [start] {start}"
    by (simp add: flood_inv_def walk_reachable_def)
  from flood_loop_correct [OF this] True show ?thesis by (simp add: flood_reachable_def)
qed


lemma fold_candidates:
  "fold (\<lambda>c (pel, pow). if c \<in> R then (pel - {c}, insert c pow) else (pel, pow)) cs (P, Q) =
     (P - (set cs \<inter> R), Q \<union> (set cs \<inter> R))"
proof (induction cs arbitrary: P Q)
  case Nil
  then show ?case by simp
next
  case (Cons c cs)
  let ?f = "\<lambda>c (pel, pow). if c \<in> R then (pel - {c}, insert c pow) else (pel, pow)"
  show ?case
  proof (cases "c \<in> R")
    case True
    have "fold ?f (c # cs) (P, Q) = fold ?f cs (P - {c}, insert c Q)" using True by simp
    also have "\<dots> = ((P - {c}) - (set cs \<inter> R), insert c Q \<union> (set cs \<inter> R))" by (rule Cons.IH)
    also have "\<dots> = (P - (set (c # cs) \<inter> R), Q \<union> (set (c # cs) \<inter> R))"
    proof -
      have "(P - {c}) - (set cs \<inter> R) = P - (set (c # cs) \<inter> R)" using True by auto
      moreover have "insert c Q \<union> (set cs \<inter> R) = Q \<union> (set (c # cs) \<inter> R)" using True by auto
      ultimately show ?thesis by (simp only:)
    qed
    finally show ?thesis .
  next
    case False
    have "fold ?f (c # cs) (P, Q) = fold ?f cs (P, Q)" using False by simp
    also have "\<dots> = (P - (set cs \<inter> R), Q \<union> (set cs \<inter> R))" by (rule Cons.IH)
    also have "\<dots> = (P - (set (c # cs) \<inter> R), Q \<union> (set (c # cs) \<inter> R))"
    proof -
      have "set cs \<inter> R = set (c # cs) \<inter> R" using False by auto
      then show ?thesis by (simp only:)
    qed
    finally show ?thesis .
  qed
qed

lemma build_pellets_eq:
  "build_pellets R =
     ({c \<in> R. \<not> in_house (fst c) (snd c)} - ({(1, 3), (26, 3), (1, 23), (26, 23)} \<inter> R),
      {(1, 3), (26, 3), (1, 23), (26, 23)} \<inter> R)"
  unfolding build_pellets_def Let_def fold_candidates COLS_eq by simp

lemma corners_not_in_house:
  "\<not> in_house 1 3" "\<not> in_house 26 3" "\<not> in_house 1 23" "\<not> in_house 26 23"
  by (simp_all add: in_house_def HOUSE_X0_def HOUSE_X1_def HOUSE_Y0_def HOUSE_Y1_def)

lemma start_open: "is_open_for_pac (fst pick_start_tile_pac) (snd pick_start_tile_pac)"
  unfolding pick_start_eq by code_simp

text \<open>
  Claim C8. After \<open>reset_level\<close> (every level start, the first included), the pellet and
  power sets together are exactly the tiles reachable from the player's start tile through
  tiles open for the player, without the house tiles; they are disjoint; and a corner
  candidate is in the power set exactly when it is reachable, and never in the pellet set.
\<close>

theorem level_start_pellets:
  "pellets (reset_level s) \<union> power_pellets (reset_level s) =
     {c \<in> walk_reachable pick_start_tile_pac. \<not> in_house (fst c) (snd c)} \<and>
   pellets (reset_level s) \<inter> power_pellets (reset_level s) = {} \<and>
   (\<forall>c\<in>{(1, 3), (COLS - 2, 3), (1, 23), (COLS - 2, 23)}.
      (c \<in> power_pellets (reset_level s) \<longleftrightarrow> c \<in> walk_reachable pick_start_tile_pac) \<and>
      c \<notin> pellets (reset_level s)) \<and>
   power_pellets (reset_level s) \<subseteq> {(1, 3), (COLS - 2, 3), (1, 23), (COLS - 2, 23)}"
proof -
  have r: "flood_reachable pick_start_tile_pac = walk_reachable pick_start_tile_pac"
    using start_open by (simp add: flood_reachable_correct)
  let ?R = "walk_reachable pick_start_tile_pac"
  let ?C = "{(1, 3), (26, 3), (1, 23), (26, 23 :: int)} :: (int \<times> int) set"
  have p: "pellets (reset_level s) = {c \<in> ?R. \<not> in_house (fst c) (snd c)} - (?C \<inter> ?R)"
    and q: "power_pellets (reset_level s) = ?C \<inter> ?R"
    by (simp_all add: reset_level_fields r build_pellets_eq)
  have ch: "?C \<inter> ?R \<subseteq> {c \<in> ?R. \<not> in_house (fst c) (snd c)}"
    using corners_not_in_house by auto
  have 1: "pellets (reset_level s) \<union> power_pellets (reset_level s) =
     {c \<in> ?R. \<not> in_house (fst c) (snd c)}"
    unfolding p q using ch by blast
  have 2: "pellets (reset_level s) \<inter> power_pellets (reset_level s) = {}"
    unfolding p q by blast
  have 3: "\<forall>c\<in>?C. (c \<in> power_pellets (reset_level s) \<longleftrightarrow> c \<in> ?R) \<and> c \<notin> pellets (reset_level s)"
    unfolding p q by blast
  have 4: "power_pellets (reset_level s) \<subseteq> ?C"
    unfolding q by blast
  from 1 2 3 4 show ?thesis unfolding COLS_eq by simp
qed

theorem level_start_pellets_witness:
  "(13, 29) \<in> pellets (new_game 0) \<and> (13, 29) \<notin> power_pellets (new_game 0) \<and>
   (14, 29) \<in> pellets (new_game 0)"
proof -
  have o: "(13, 29) \<in> open_tiles" unfolding open_tiles_def by simp code_simp
  have "((14, 29), (13, 29)) \<in> pac_step"
    using o by (simp add: pac_step_def nbr_def DIR_LIST_def DIRS_L_def)
  then have w: "(13, 29) \<in> walk_reachable pick_start_tile_pac"
    "(14, 29) \<in> walk_reachable pick_start_tile_pac"
    by (auto simp: walk_reachable_def pick_start_eq)
  have h: "\<not> in_house 13 29" "\<not> in_house 14 29"
    by (simp_all add: in_house_def HOUSE_X0_def HOUSE_X1_def HOUSE_Y0_def HOUSE_Y1_def)
  let ?s = "\<lparr>score = 0, hiscore = 0, lives = 3, level = 1,
        pellets = {}, power_pellets = {},
        px = 0, py = 0, dir = DIRS_L, want = DIRS_L,
        ghosts = home_ghost,
        dead = False, dead_t = 0,
        p_acc = 0, g_acc = (\<lambda>name. 0),
        menu = False, menu_idx = 0, fright_chain = 0, waiting = True,
        last_menu_toggle = 0\<rparr>"
  have n: "new_game 0 = reset_level ?s" by (simp add: new_game_def)
  from level_start_pellets [of ?s]
  have u: "pellets (reset_level ?s) \<union> power_pellets (reset_level ?s) =
       {c \<in> walk_reachable pick_start_tile_pac. \<not> in_house (fst c) (snd c)}"
    and c: "power_pellets (reset_level ?s) \<subseteq> {(1, 3), (COLS - 2, 3), (1, 23), (COLS - 2, 23)}"
    by blast+
  have "(13, 29) \<in> pellets (reset_level ?s) \<union> power_pellets (reset_level ?s)"
    "(14, 29) \<in> pellets (reset_level ?s) \<union> power_pellets (reset_level ?s)"
    unfolding u using w h by simp_all
  moreover have "(13, 29) \<notin> power_pellets (reset_level ?s)" "(14, 29) \<notin> power_pellets (reset_level ?s)"
    using c by (auto simp: COLS_eq)
  ultimately show ?thesis unfolding n by blast
qed

section \<open>The standing invariant\<close>

lemma px_to_cell_row: "snd (px_to_cell x y) = max 0 (min 30 (py_round_div (y - 2) 2))"
  by (simp add: px_to_cell_def Let_def ROWS_eq OY_def CELL_Y_def)

lemma on_band_center: "opn c r \<Longrightarrow> on_band opn (4 * c + 2) (2 * r + 2)"
  by (simp add: on_band_def)

lemma tiles_onlyD:
  assumes "tiles_only opn" "opn cx cy"
  shows "0 \<le> cx" "cx \<le> 27" "0 \<le> cy" "cy \<le> 30"
proof -
  from assms have "0 \<le> cx \<and> cx < 28 \<and> 0 \<le> cy \<and> cy < 31" unfolding tiles_only_def by blast
  then show "0 \<le> cx" "cx \<le> 27" "0 \<le> cy" "cy \<le> 30" by simp_all
qed

lemma on_band_row_snap:
  assumes t: "tiles_only opn" and b: "on_band opn x y"
  shows "on_band opn x (2 * snd (px_to_cell x y) + 2)"
proof -
  define cx where "cx = (x - 2) div 4"
  define r where "r = (y - 2) div 2"
  have y: "y = 2 * r + 2 + (y - 2) mod 2" unfolding r_def by presburger
  show ?thesis
  proof (cases "(y - 2) mod 2 = 0")
    case True
    with b have "opn cx r" by (auto simp: on_band_def Let_def cx_def r_def split: if_splits)
    then have rr: "0 \<le> r" "r \<le> 30" using tiles_onlyD [OF t] by blast+
    have "py_round_div (y - 2) 2 = r" using True by (simp add: py_round_div_def r_def Let_def)
    then have "snd (px_to_cell x y) = r" using rr by (simp add: px_to_cell_row)
    then show ?thesis using b y True by simp
  next
    case False
    then have m: "(y - 2) mod 2 = 1" by presburger
    with b have o: "(x - 2) mod 4 = 0" "opn cx r" "opn cx (r + 1)"
      by (auto simp: on_band_def Let_def cx_def r_def split: if_splits)
    then have rr: "0 \<le> r" "r + 1 \<le> 30" using tiles_onlyD [OF t] by blast+
    have "py_round_div (y - 2) 2 = (if even r then r else r + 1)"
      using m by (simp add: py_round_div_def r_def Let_def)
    then have s: "snd (px_to_cell x y) = (if even r then r else r + 1)"
      using rr by (simp add: px_to_cell_row)
    show ?thesis
      unfolding s using o by (auto simp: on_band_def cx_def)
  qed
qed

lemma wrap_on_band:
  assumes t: "tiles_only opn"
    and e: "\<And>cy. cy \<in> TUNNEL_ROWS \<Longrightarrow> opn 0 cy \<and> opn 27 cy"
    and b: "on_band opn x y"
  shows "on_band opn (fst (tunnel_wrap_on_centerline x y d)) (snd (tunnel_wrap_on_centerline x y d))"
proof (cases "snd (px_to_cell x y) \<in> TUNNEL_ROWS")
  case False
  then show ?thesis using b by (simp add: tunnel_wrap_on_centerline_def split_beta)
next
  case True
  let ?cy = "snd (px_to_cell x y)"
  have l: "on_band opn 2 (2 * ?cy + 2)" using on_band_center [of opn 0 ?cy] e [OF True] by simp
  have r: "on_band opn 110 (2 * ?cy + 2)" using on_band_center [of opn 27 ?cy] e [OF True] by simp
  have m: "on_band opn x (2 * ?cy + 2)" using t b by (rule on_band_row_snap)
  show ?thesis
    using True l r m
    by (simp add: tunnel_wrap_on_centerline_def split_beta cell_center_eq COLS_eq)
qed

lemma tunnel_edges_open:
  assumes "cy \<in> TUNNEL_ROWS"
  shows "is_open_for_ghost 0 cy \<and> is_open_for_ghost 27 cy"
    and "is_open_for_pac 0 cy \<and> is_open_for_pac 27 cy"
proof -
  from assms show g: "is_open_for_ghost 0 cy \<and> is_open_for_ghost 27 cy"
    by (simp add: TUNNEL_ROWS_def COLS_eq)
  then show "is_open_for_pac 0 cy \<and> is_open_for_pac 27 cy"
    by (simp add: is_open_for_ghost_def is_open_for_pac_def is_gate_tile_def GATE_XS_def)
qed

lemma wrap_pac_mask:
  "can_stand pac_mask x y \<Longrightarrow>
   can_stand pac_mask (fst (tunnel_wrap_on_centerline x y d)) (snd (tunnel_wrap_on_centerline x y d))"
  unfolding can_stand_pac_mask
  by (rule wrap_on_band [OF tiles_only_pac]) (simp_all add: tunnel_edges_open)

lemma wrap_ghost_mask:
  "can_stand ghost_mask x y \<Longrightarrow>
   can_stand ghost_mask (fst (tunnel_wrap_on_centerline x y d)) (snd (tunnel_wrap_on_centerline x y d))"
  unfolding can_stand_ghost_mask
  by (rule wrap_on_band [OF tiles_only_ghost]) (simp_all add: tunnel_edges_open)

lemma pac_steps_mask:
  "can_stand pac_mask (fst p) (snd p) \<Longrightarrow>
   can_stand pac_mask (fst (snd (pac_steps acc d p))) (snd (snd (pac_steps acc d p)))"
proof (induction acc d p rule: pac_steps.induct)
  case (1 acc d p)
  show ?case
  proof (cases "1 \<le> acc")
    case False
    then show ?thesis using "1.prems" by (simp add: pac_steps.simps [of acc d p])
  next
    case True
    let ?p1 = "if fst d \<noteq> 0 then tunnel_wrap_on_centerline (fst p) (snd p) (fst d) else p"
    let ?n = "(fst ?p1 + fst d, snd ?p1 + snd d)"
    let ?p2 = "if can_stand pac_mask (fst ?n) (snd ?n) then ?n else ?p1"
    have p1: "can_stand pac_mask (fst ?p1) (snd ?p1)"
      using "1.prems" wrap_pac_mask by simp
    then have p2: "can_stand pac_mask (fst ?p2) (snd ?p2)" by simp
    have "pac_steps acc d p = pac_steps (acc - 1) d ?p2"
      using True by (subst pac_steps.simps) (simp add: Let_def)
    then show ?thesis using "1.IH" [OF True refl refl p2] by simp
  qed
qed

lemma ghost_steps_mask:
  "can_stand ghost_mask (fst p) (snd p) \<Longrightarrow>
   can_stand ghost_mask (fst (snd (ghost_steps acc d p))) (snd (snd (ghost_steps acc d p)))"
proof (induction acc d p rule: ghost_steps.induct)
  case (1 acc d p)
  show ?case
  proof (cases "1 \<le> acc")
    case False
    then show ?thesis using "1.prems" by (simp add: ghost_steps.simps [of acc d p])
  next
    case True
    let ?p1 = "if fst d \<noteq> 0 then tunnel_wrap_on_centerline (fst p) (snd p) (fst d) else p"
    let ?n = "(fst ?p1 + fst d, snd ?p1 + snd d)"
    have p1: "can_stand ghost_mask (fst ?p1) (snd ?p1)"
      using "1.prems" wrap_ghost_mask by simp
    show ?thesis
    proof (cases "can_stand ghost_mask (fst ?n) (snd ?n)")
      case False
      then have "ghost_steps acc d p = (acc - 1, ?p1)"
        using True by (subst ghost_steps.simps) (simp add: Let_def)
      then show ?thesis using p1 by simp
    next
      case n: True
      then have "ghost_steps acc d p = ghost_steps (acc - 1) d ?n"
        using True by (subst ghost_steps.simps) (simp add: Let_def)
      then show ?thesis using "1.IH" [OF True refl refl n] n by simp
    qed
  qed
qed

definition standing :: "game \<Rightarrow> bool" where
  "standing s \<longleftrightarrow>
     can_stand pac_mask (px s) (py s) \<and>
     (\<forall>n. can_stand ghost_mask (g_x (ghosts s n)) (g_y (ghosts s n)))"

definition homes_ok :: "game \<Rightarrow> bool" where
  "homes_ok s \<longleftrightarrow> (\<forall>n. g_home (ghosts s n) = GHOST_HOME_TILES n)"

lemma home_centers_stand:
  "can_stand ghost_mask (fst (cell_center (fst (GHOST_HOME_TILES n)) (snd (GHOST_HOME_TILES n))))
                        (snd (cell_center (fst (GHOST_HOME_TILES n)) (snd (GHOST_HOME_TILES n))))"
proof -
  have "is_open_for_ghost 13 14" "is_open_for_ghost 14 14" "is_open_for_ghost 13 15"
    "is_open_for_ghost 14 15" by code_simp+
  then show ?thesis
    by (cases n) (simp_all add: cell_center_eq can_stand_ghost_mask on_band_def)
qed

lemma start_center_stands:
  "can_stand pac_mask (fst (cell_center (fst pick_start_tile_pac) (snd pick_start_tile_pac)))
                      (snd (cell_center (fst pick_start_tile_pac) (snd pick_start_tile_pac)))"
proof -
  have "is_open_for_pac 14 29" by code_simp
  then show ?thesis
    by (simp add: pick_start_eq cell_center_eq can_stand_pac_mask on_band_def)
qed

lemma home_ghost_fields:
  "g_home (home_ghost n) = GHOST_HOME_TILES n"
  "g_x (home_ghost n) = fst (cell_center (fst (GHOST_HOME_TILES n)) (snd (GHOST_HOME_TILES n)))"
  "g_y (home_ghost n) = snd (cell_center (fst (GHOST_HOME_TILES n)) (snd (GHOST_HOME_TILES n)))"
  "g_dir (home_ghost n) = DIRS_U" "g_fright (home_ghost n) = 0"
  by (simp_all add: home_ghost_def split_beta)

lemma reset_level_standing: "standing (reset_level s) \<and> homes_ok (reset_level s)"
proof -
  have p: "px (reset_level s) = fst (cell_center (fst pick_start_tile_pac) (snd pick_start_tile_pac))"
    "py (reset_level s) = snd (cell_center (fst pick_start_tile_pac) (snd pick_start_tile_pac))"
    using reset_level_fields(3) [of s] by (simp_all add: prod_eq_iff)
  show ?thesis
    unfolding standing_def homes_ok_def p reset_level_fields(7)
    using start_center_stands home_centers_stand by (simp add: home_ghost_fields)
qed

lemma new_game_standing: "standing (new_game h) \<and> homes_ok (new_game h)"
  unfolding new_game_def by (rule reset_level_standing)

lemma input_steps_standing:
  "standing (menu_toggle e t s) = standing s" "homes_ok (menu_toggle e t s) = homes_ok s"
  "standing (waiting_start e s) = standing s" "homes_ok (waiting_start e s) = homes_ok s"
  "standing (dpad_intent e s) = standing s" "homes_ok (dpad_intent e s) = homes_ok s"
  by (simp_all add: standing_def homes_ok_def menu_toggle_def waiting_start_def dpad_intent_def Let_def)

text \<open>Steps that move nobody.\<close>

definition same_pos :: "game \<Rightarrow> game \<Rightarrow> bool" where
  "same_pos s s' \<longleftrightarrow> px s' = px s \<and> py s' = py s \<and> ghosts s' = ghosts s"

lemma same_pos_standing:
  "same_pos s s' \<Longrightarrow> standing s' = standing s \<and> homes_ok s' = homes_ok s"
  by (simp add: same_pos_def standing_def homes_ok_def)

lemma same_pos_refl: "same_pos s s"
  by (simp add: same_pos_def)

lemma same_pos_trans: "same_pos s s' \<Longrightarrow> same_pos s' s'' \<Longrightarrow> same_pos s s''"
  by (simp add: same_pos_def)

lemma menu_actions_cases:
  assumes "menu_actions e (s, d) = Some (s', d')"
  shows "same_pos s s' \<or> (\<exists>h. s' = new_game h)"
proof (cases "menu s")
  case False
  then show ?thesis using assms by (simp add: menu_actions_def same_pos_refl)
next
  case True
  define s1 where "s1 = (if ev_up e then s\<lparr>menu_idx := (menu_idx s - 1) mod int (length MENU_ITEMS)\<rparr> else s)"
  define s2 where "s2 = (if ev_down e then s1\<lparr>menu_idx := (menu_idx s1 + 1) mod int (length MENU_ITEMS)\<rparr> else s1)"
  define s3 where "s3 = (if ev_b e \<or> ev_y e then s2\<lparr>menu := False\<rparr> else s2)"
  have p1: "same_pos s s1" by (simp add: s1_def same_pos_def)
  have p2: "same_pos s1 s2" by (simp add: s2_def same_pos_def)
  have p3: "same_pos s2 s3" by (simp add: s3_def same_pos_def)
  have p: "same_pos s s3" using p1 p2 p3 by (blast intro: same_pos_trans)
  have p': "same_pos s (s3\<lparr>menu := False\<rparr>)" using p by (simp add: same_pos_def)
  have m: "menu_actions e (s, d) =
     (if ev_a e \<or> ev_x e
      then
        let choice = MENU_ITEMS ! nat (menu_idx s3)
        in if choice = ''RESUME'' then Some (s3\<lparr>menu := False\<rparr>, d)
           else if choice = ''RESTART''
                then (let (s4, d4) = flush_hiscore (s3, d) in Some (new_game (hiscore s4), d4))
           else if choice = ''EXIT'' then None
           else Some (s3, d)
      else Some (s3, d))"
    using True unfolding menu_actions_def s1_def s2_def s3_def Let_def by simp
  show ?thesis
  proof (cases "ev_a e \<or> ev_x e")
    case False
    then have "s' = s3" using assms m by simp
    then show ?thesis using p by simp
  next
    case ax: True
    consider (resume) "MENU_ITEMS ! nat (menu_idx s3) = ''RESUME''"
      | (restart) "MENU_ITEMS ! nat (menu_idx s3) \<noteq> ''RESUME''" "MENU_ITEMS ! nat (menu_idx s3) = ''RESTART''"
      | (other) "MENU_ITEMS ! nat (menu_idx s3) \<noteq> ''RESUME''" "MENU_ITEMS ! nat (menu_idx s3) \<noteq> ''RESTART''"
      by blast
    then show ?thesis
    proof cases
      case resume
      then have "s' = s3\<lparr>menu := False\<rparr>" using assms m ax by (simp add: Let_def)
      then show ?thesis using p' by simp
    next
      case restart
      then have "s' = new_game (hiscore (fst (flush_hiscore (s3, d))))"
        using assms m ax by (simp add: Let_def split_beta)
      then show ?thesis by blast
    next
      case other
      then have "s' = s3" using assms m ax by (simp add: Let_def split: if_splits)
      then show ?thesis using p by simp
    qed
  qed
qed

lemma menu_actions_standing:
  assumes "menu_actions e (s, d) = Some (s', d')" "standing s \<and> homes_ok s"
  shows "standing s' \<and> homes_ok s'"
  using menu_actions_cases [OF assms(1)] assms(2) same_pos_standing new_game_standing by blast

lemma fold_ghosts_map:
  "fold (\<lambda>name gs. gs(name := F name (gs name))) GHOSTS g0 = (\<lambda>n. F n (g0 n))"
proof
  fix n show "fold (\<lambda>name gs. gs(name := F name (gs name))) GHOSTS g0 n = F n (g0 n)"
    by (cases n) (simp_all add: GHOSTS_def)
qed

lemma respawn_fields:
  "px (respawn s) = fst (cell_center (fst pick_start_tile_pac) (snd pick_start_tile_pac))"
  "py (respawn s) = snd (cell_center (fst pick_start_tile_pac) (snd pick_start_tile_pac))"
  "ghosts (respawn s) =
      (\<lambda>n. (ghosts s n)\<lparr>g_x := fst (cell_center (fst (g_home (ghosts s n))) (snd (g_home (ghosts s n)))),
                          g_y := snd (cell_center (fst (g_home (ghosts s n))) (snd (g_home (ghosts s n)))),
                          g_dir := DIRS_U, g_fright := 0\<rparr>)"
  "dir (respawn s) = DIRS_L" "want (respawn s) = DIRS_L" "p_acc (respawn s) = 0"
  "g_acc (respawn s) = (\<lambda>n. 0)" "fright_chain (respawn s) = 0" "waiting (respawn s)"
  "lives (respawn s) = lives s" "level (respawn s) = level s" "score (respawn s) = score s"
  "hiscore (respawn s) = hiscore s" "dead (respawn s) = dead s"
  using fold_ghosts_map [of "\<lambda>name g. g\<lparr>g_x := fst (cell_center (fst (g_home g)) (snd (g_home g))),
                          g_y := snd (cell_center (fst (g_home g)) (snd (g_home g))),
                          g_dir := DIRS_U, g_fright := 0\<rparr>" "ghosts s"]
  by (simp_all add: respawn_def split_beta fold_ghosts_all)

lemma respawn_standing:
  assumes "homes_ok s"
  shows "standing (respawn s) \<and> homes_ok (respawn s)"
  unfolding standing_def homes_ok_def respawn_fields
  using start_center_stands home_centers_stand assms
  by (simp add: homes_ok_def)

lemma death_handling_cases:
  assumes "death_handling e (s, d) = (s', d')"
  shows "same_pos s s' \<or> (\<exists>h. s' = new_game h) \<or> (\<exists>t. same_pos s t \<and> s' = respawn t)"
proof (cases "dead s")
  case False
  then show ?thesis using assms by (simp add: death_handling_def same_pos_refl)
next
  case True
  define s1 where "s1 = s\<lparr>dead_t := dead_t s + e\<rparr>"
  define s2 where "s2 = s1\<lparr>dead_t := 0, dead := False, lives := lives s1 - 1\<rparr>"
  have p1: "same_pos s s1" and p2: "same_pos s s2"
    by (simp_all add: s1_def s2_def same_pos_def)
  have m: "death_handling e (s, d) =
      (if dead_t s1 \<ge> 1
       then if lives s2 \<le> 0
            then (let (s3, d3) = flush_hiscore (s2, d) in (new_game (hiscore s3), d3))
            else (respawn s2, d)
       else (s1, d))"
    using True unfolding death_handling_def s1_def s2_def Let_def by simp
  show ?thesis
  proof (cases "dead_t s1 \<ge> 1")
    case False
    then have "s' = s1" using assms m by simp
    then show ?thesis using p1 by simp
  next
    case t: True
    show ?thesis
    proof (cases "lives s2 \<le> 0")
      case True
      then have "s' = new_game (hiscore (fst (flush_hiscore (s2, d))))"
        using assms m t by (simp add: split_beta)
      then show ?thesis by blast
    next
      case False
      then have "s' = respawn s2" using assms m t by simp
      then show ?thesis using p2 by blast
    qed
  qed
qed

lemma death_handling_standing:
  assumes "death_handling e (s, d) = (s', d')" "standing s \<and> homes_ok s"
  shows "standing s' \<and> homes_ok s'"
  using death_handling_cases [OF assms(1)] assms(2) same_pos_standing new_game_standing
    respawn_standing by blast

definition same_places :: "game \<Rightarrow> game \<Rightarrow> bool" where
  "same_places s s' \<longleftrightarrow>
     px s' = px s \<and> py s' = py s \<and>
     (\<forall>n. g_x (ghosts s' n) = g_x (ghosts s n) \<and> g_y (ghosts s' n) = g_y (ghosts s n) \<and>
          g_home (ghosts s' n) = g_home (ghosts s n))"

lemma same_places_standing:
  "same_places s s' \<Longrightarrow> standing s' = standing s \<and> homes_ok s' = homes_ok s"
  by (simp add: same_places_def standing_def homes_ok_def)

lemma latch_dir_places: "same_places s (latch_dir s)"
  by (simp add: latch_dir_def same_places_def split_beta)

lemma bump_hiscore_places: "same_places s (bump_hiscore s)"
  by (simp add: bump_hiscore_def same_places_def)

lemma eat_ghosts:
  "ghosts (eat s) = ghosts s \<or> ghosts (eat s) = (\<lambda>n. (ghosts s n)\<lparr>g_fright := FRIGHT_DURATION\<rparr>)"
  using fold_ghosts_map [of "\<lambda>name g. g\<lparr>g_fright := FRIGHT_DURATION\<rparr>" "ghosts s"]
  by (simp add: eat_def Let_def split_beta)

lemma eat_pos: "px (eat s) = px s" "py (eat s) = py s"
  by (simp_all add: eat_def Let_def split_beta)

lemma eat_places: "same_places s (eat s)"
  using eat_ghosts [of s] by (auto simp: same_places_def eat_pos)

lemma fright_decay_ghosts:
  "ghosts (fright_decay e s) =
     (\<lambda>n. if g_fright (ghosts s n) > 0
           then (ghosts s n)\<lparr>g_fright := max 0 (g_fright (ghosts s n) - e)\<rparr> else ghosts s n)"
proof -
  let ?F = "\<lambda>name (gs :: ghost_name \<Rightarrow> ghost). if g_fright (gs name) > 0
                      then gs(name := (gs name)\<lparr>g_fright := max 0 (g_fright (gs name) - e)\<rparr>)
                      else gs"
  let ?G = "\<lambda>(name :: ghost_name) g. if g_fright g > 0 then g\<lparr>g_fright := max 0 (g_fright g - e)\<rparr> else g"
  have eq: "?F = (\<lambda>name gs. gs(name := ?G name (gs name)))"
    by (intro ext) auto
  have "ghosts (fright_decay e s) = fold ?F GHOSTS (ghosts s)" by (simp add: fright_decay_def)
  also have "\<dots> = fold (\<lambda>name gs. gs(name := ?G name (gs name))) GHOSTS (ghosts s)"
    by (simp only: eq)
  also have "\<dots> = (\<lambda>n. ?G n (ghosts s n))" by (rule fold_ghosts_map)
  finally show ?thesis .
qed

lemma fright_decay_places: "same_places s (fright_decay e s)"
  by (simp add: same_places_def fright_decay_ghosts) (simp add: fright_decay_def)

lemma pac_move_standing:
  assumes "standing s"
  shows "standing (pac_move e s)" "homes_ok (pac_move e s) = homes_ok s"
proof -
  have g: "ghosts (pac_move e s) = ghosts s" by (simp add: pac_move_def split_beta)
  have p: "px (pac_move e s) = fst (snd (pac_steps (p_acc s + PAC_SPEED_BASE * e) (dir s) (px s, py s)))"
    "py (pac_move e s) = snd (snd (pac_steps (p_acc s + PAC_SPEED_BASE * e) (dir s) (px s, py s)))"
    by (simp_all add: pac_move_def split_beta)
  show "standing (pac_move e s)"
    using assms pac_steps_mask [of "(px s, py s)" "p_acc s + PAC_SPEED_BASE * e" "dir s"]
    by (simp add: standing_def g p)
  show "homes_ok (pac_move e s) = homes_ok s" by (simp add: homes_ok_def g)
qed

lemma ghost_think_fields:
  "g_x (ghost_think rk p g) = g_x g" "g_y (ghost_think rk p g) = g_y g"
  "g_home (ghost_think rk p g) = g_home g" "g_fright (ghost_think rk p g) = g_fright g"
  by (simp_all add: ghost_think_def Let_def split_beta)

lemma capture_fields:
  "px (capture n s) = px s" "py (capture n s) = py s"
  "ghosts (capture n s) =
     (ghosts s)(n := (ghosts s n)\<lparr>g_x := fst (cell_center (fst (g_home (ghosts s n))) (snd (g_home (ghosts s n)))),
                                  g_y := snd (cell_center (fst (g_home (ghosts s n))) (snd (g_home (ghosts s n)))),
                                  g_dir := DIRS_U, g_fright := 0\<rparr>)"
  by (simp_all add: capture_def Let_def split_beta)

lemma capture_standing:
  assumes "standing s \<and> homes_ok s"
  shows "standing (capture n s) \<and> homes_ok (capture n s)"
  using assms home_centers_stand [of n]
  by (simp add: standing_def homes_ok_def capture_fields)

lemma ghost_turn_standing:
  assumes "standing s \<and> homes_ok s"
  shows "standing (snd (ghost_turn gs e rn p n s)) \<and> homes_ok (snd (ghost_turn gs e rn p n s))"
proof -
  let ?g = "ghosts s n"
  let ?g1 = "ghost_think (rn n) p ?g"
  let ?st = "ghost_steps (g_acc s n + gs * e) (g_dir ?g1) (g_x ?g1, g_y ?g1)"
  let ?g2 = "?g1\<lparr>g_x := fst (snd ?st), g_y := snd (snd ?st)\<rparr>"
  let ?s2 = "s\<lparr>ghosts := (ghosts s)(n := ?g2), g_acc := (g_acc s)(n := fst ?st)\<rparr>"
  have "can_stand ghost_mask (g_x ?g1) (g_y ?g1)"
    using assms by (simp add: ghost_think_fields standing_def)
  then have m: "can_stand ghost_mask (fst (snd ?st)) (snd (snd ?st))"
    using ghost_steps_mask [of "(g_x ?g1, g_y ?g1)" "g_acc s n + gs * e" "g_dir ?g1"] by simp
  have s2: "standing ?s2 \<and> homes_ok ?s2"
    using assms m by (simp add: standing_def homes_ok_def ghost_think_fields)
  have d: "standing (?s2\<lparr>dead := True, dead_t := 0\<rparr>) \<and> homes_ok (?s2\<lparr>dead := True, dead_t := 0\<rparr>)"
    using s2 by (simp add: standing_def homes_ok_def)
  have "snd (ghost_turn gs e rn p n s) = ?s2 \<or> snd (ghost_turn gs e rn p n s) = capture n ?s2 \<or>
        snd (ghost_turn gs e rn p n s) = ?s2\<lparr>dead := True, dead_t := 0\<rparr>"
    unfolding ghost_turn_def Let_def split_beta by simp
  then show ?thesis using s2 d capture_standing [OF s2] by metis
qed

lemma ghosts_loop_standing:
  "standing s \<and> homes_ok s \<Longrightarrow>
   standing (ghosts_loop gs e rn p ns s) \<and> homes_ok (ghosts_loop gs e rn p ns s)"
proof (induction ns arbitrary: s)
  case Nil
  then show ?case by simp
next
  case (Cons n ns)
  obtain b s' where t: "ghost_turn gs e rn p n s = (b, s')" by (cases "ghost_turn gs e rn p n s")
  then have "standing s' \<and> homes_ok s'" using ghost_turn_standing [OF Cons.prems, of gs e rn p n] by simp
  then show ?case using t Cons.IH [of s'] by (cases b) simp_all
qed

lemma gameplay_standing:
  assumes "standing s \<and> homes_ok s"
  shows "standing (gameplay e rn s) \<and> homes_ok (gameplay e rn s)"
proof -
  let ?s1 = "latch_dir s"
  let ?s2 = "pac_move e ?s1"
  let ?s3 = "eat ?s2"
  let ?s4 = "fright_decay e ?s3"
  have 1: "standing ?s1 \<and> homes_ok ?s1" using assms same_places_standing [OF latch_dir_places] by simp
  then have 2: "standing ?s2 \<and> homes_ok ?s2" using pac_move_standing [of ?s1 e] by simp
  then have 3: "standing ?s3 \<and> homes_ok ?s3" using same_places_standing [OF eat_places] by simp
  then have 4: "standing ?s4 \<and> homes_ok ?s4" using same_places_standing [OF fright_decay_places] by simp
  have 5: "standing (ghosts_loop gs e rn p GHOSTS ?s4) \<and> homes_ok (ghosts_loop gs e rn p GHOSTS ?s4)" for gs p
    using 4 by (rule ghosts_loop_standing)
  have 6: "standing (play_core e rn s) \<and> homes_ok (play_core e rn s)"
    unfolding play_core_def Let_def
    using 5 same_places_standing [OF bump_hiscore_places] by simp
  show ?thesis
    unfolding gameplay_def next_level_def using 6 reset_level_standing by simp
qed

lemma handle_input_standing:
  assumes "handle_input i w = Some (s, d)" "standing (game w) \<and> homes_ok (game w)"
  shows "standing s \<and> homes_ok s"
proof -
  from assms(1) obtain s3 d3 where
    m: "menu_actions (ev i) (waiting_start (ev i) (menu_toggle (ev i) (now1 i) (game w)), hiscore_file w)
          = Some (s3, d3)" and s: "s = dpad_intent (ev i) s3"
    by (auto simp: handle_input_def Let_def split: option.splits)
  have "standing (waiting_start (ev i) (menu_toggle (ev i) (now1 i) (game w))) \<and>
        homes_ok (waiting_start (ev i) (menu_toggle (ev i) (now1 i) (game w)))"
    using assms(2) by (simp add: input_steps_standing)
  from menu_actions_standing [OF m this] show ?thesis by (simp add: s input_steps_standing)
qed

lemma loop_body_standing:
  assumes "loop_body i w = Some w'" "standing (game w) \<and> homes_ok (game w)"
  shows "standing (game w') \<and> homes_ok (game w')"
proof -
  from assms(1) obtain s4 d3 where h: "handle_input i w = Some (s4, d3)"
    by (auto simp: loop_body_def split: option.splits)
  have i4: "standing s4 \<and> homes_ok s4" using h assms(2) by (rule handle_input_standing)
  show ?thesis
  proof (cases "now2 i - last_frame w < frame_dt")
    case True
    then have "game w' = s4" using assms(1) h by (auto simp: loop_body_def)
    then show ?thesis using i4 by simp
  next
    case False
    obtain s5 d5 where dh: "death_handling (now2 i - last_frame w) (s4, d3) = (s5, d5)"
      by (cases "death_handling (now2 i - last_frame w) (s4, d3)")
    have i5: "standing s5 \<and> homes_ok s5" using dh i4 by (rule death_handling_standing)
    have "game w' = (if \<not> (waiting s4 \<or> menu s4 \<or> dead s4)
                      then gameplay (now2 i - last_frame w) (rnd i) s5 else s5)"
      using assms(1) h False dh by (auto simp: loop_body_def Let_def)
    then show ?thesis using i5 gameplay_standing [OF i5] by simp
  qed
qed

lemma reachable_standing: "reachable w \<Longrightarrow> standing (game w) \<and> homes_ok (game w)"
proof (induction rule: reachable.induct)
  case (start hs t0 d)
  then show ?case using new_game_standing by simp
next
  case (step w i w')
  then show ?case using loop_body_standing by blast
qed

text \<open>
  Claim C1. In every state the loop reaches, the player stands on a pixel of the player
  mask and every ghost on a pixel of the ghost mask. The proof goes through every place
  where a position is written: the guarded one-pixel steps, the tunnel wrap (lemmas
  \<open>wrap_pac_mask\<close>, \<open>wrap_ghost_mask\<close>: it keeps both masks, also where it only
  snaps the row), the capture and respawn placements and the level reset.
\<close>

theorem standing_invariant:
  assumes "reachable w"
  shows "can_stand pac_mask (px (game w)) (py (game w)) \<and>
         (\<forall>n. can_stand ghost_mask (g_x (ghosts (game w) n)) (g_y (ghosts (game w) n)))"
  using reachable_standing [OF assms] by (simp add: standing_def)

lemma menu_actions_None: "menu_actions e sd = None \<Longrightarrow> ev_a e \<or> ev_x e"
  by (auto simp: menu_actions_def Let_def split_beta split: if_splits)

lemma loop_body_Some:
  assumes "\<not> ev_a (ev i)" "\<not> ev_x (ev i)"
  shows "\<exists>w'. loop_body i w = Some w'"
proof -
  let ?sd = "(waiting_start (ev i) (menu_toggle (ev i) (now1 i) (game w)), hiscore_file w)"
  have "menu_actions (ev i) ?sd \<noteq> None"
    using assms menu_actions_None [of "ev i" ?sd] by blast
  then obtain s3 d3 where "menu_actions (ev i) ?sd = Some (s3, d3)"
    by (cases "menu_actions (ev i) ?sd") auto
  then have "handle_input i w \<noteq> None"
    by (simp add: handle_input_def Let_def)
  then show ?thesis
    by (auto simp: loop_body_def Let_def split_beta split: option.splits)
qed

theorem standing_invariant_witness:
  "\<exists>w'. loop_body
       \<lparr>ev = \<lparr>ev_up = False, ev_down = False, ev_left = True, ev_right = False, ev_a = False,
              ev_b = False, ev_x = False, ev_y = False, ev_start = False, ev_select = False\<rparr>,
        now1 = 1, now2 = 1, rnd = (\<lambda>n. (1, 0))\<rparr>
       \<lparr>game = new_game 0, last_frame = 0, hiscore_file = 0\<rparr> = Some w' \<and>
     can_stand pac_mask (px (game w')) (py (game w')) \<and>
     can_stand ghost_mask (g_x (ghosts (game w') Blinky)) (g_y (ghosts (game w') Blinky)) \<and>
     can_stand ghost_mask (g_x (ghosts (game w') Clyde)) (g_y (ghosts (game w') Clyde))"
proof -
  let ?i = "\<lparr>ev = \<lparr>ev_up = False, ev_down = False, ev_left = True, ev_right = False, ev_a = False,
              ev_b = False, ev_x = False, ev_y = False, ev_start = False, ev_select = False\<rparr>,
        now1 = 1, now2 = 1, rnd = (\<lambda>n. (1, 0::nat))\<rparr>"
  let ?w = "\<lparr>game = new_game 0, last_frame = 0, hiscore_file = 0\<rparr>"
  obtain w' where b: "loop_body ?i ?w = Some w'" using loop_body_Some [of ?i ?w] by auto
  have "reachable ?w" by (rule reachable.start)
  then have "reachable w'" using b by (rule reachable.step)
  from standing_invariant [OF this] b show ?thesis by blast
qed

section \<open>Chain scoring\<close>

text \<open>
  The test of the power branch of \<open>eat\<close>: the player is on the centre of its tile and the
  tile holds a power pellet (the pellet branch before it leaves \<open>power_pellets\<close> alone).
\<close>

definition eats_power :: "game \<Rightarrow> bool" where
  "eats_power s \<longleftrightarrow>
     (let (cx, cy) = px_to_cell (px s) (py s); (txc, tyc) = cell_center cx cy
      in px s = txc \<and> py s = tyc \<and> (cx, cy) \<in> power_pellets s)"

text \<open>
  The test of the capture branch of a ghost's turn: the ghost was frightened when its
  turn began and collides with the player after its move.
\<close>

definition ghost_captured ::
  "real \<Rightarrow> real \<Rightarrow> (ghost_name \<Rightarrow> real \<times> nat) \<Rightarrow> int \<times> int \<Rightarrow> ghost_name \<Rightarrow> game \<Rightarrow> bool" where
  "ghost_captured ghost_speed elapsed rn pac_px name s \<longleftrightarrow>
     (let g = ghosts s name;
          frightened = g_fright g > 0;
          g1 = ghost_think (rn name) pac_px g;
          (acc, p) = ghost_steps (g_acc s name + ghost_speed * elapsed) (g_dir g1) (g_x g1, g_y g1)
      in collide (px s) (py s) (fst p) (snd p) 1 \<and> frightened)"

text \<open>
  What the captures of one run of the ghost loop add to the score, in the order of the
  captures: the loop of \<open>ghosts_loop\<close>, recording the score difference of every turn that
  takes the capture branch.
\<close>

fun capture_gains ::
  "real \<Rightarrow> real \<Rightarrow> (ghost_name \<Rightarrow> real \<times> nat) \<Rightarrow> int \<times> int \<Rightarrow> ghost_name list \<Rightarrow> game \<Rightarrow> int list" where
  "capture_gains ghost_speed elapsed rn pac_px [] s = []"
| "capture_gains ghost_speed elapsed rn pac_px (name # names) s =
     (case ghost_turn ghost_speed elapsed rn pac_px name s of
        (True, s') \<Rightarrow> []
      | (False, s') \<Rightarrow>
          (if ghost_captured ghost_speed elapsed rn pac_px name s then [score s' - score s] else []) @
          capture_gains ghost_speed elapsed rn pac_px names s')"

text \<open>
  A pass of the loop runs the gameplay block when the input blocks return, the frame is
  due and the game is not paused; \<open>playing_state\<close> is the state the block starts from.
  \<open>pass_power\<close>: the pass consumes a power pellet. \<open>pass_gains\<close>: what the captures of the
  pass add to the score, in order; they come after the pellet test of the same pass.
\<close>

definition playing_state :: "tick_input \<Rightarrow> world \<Rightarrow> game option" where
  "playing_state i w =
     (case handle_input i w of
        None \<Rightarrow> None
      | Some (s4, d3) \<Rightarrow>
          if now2 i - last_frame w < frame_dt \<or> waiting s4 \<or> menu s4 \<or> dead s4 then None
          else Some s4)"

definition pass_power :: "tick_input \<Rightarrow> world \<Rightarrow> bool" where
  "pass_power i w \<longleftrightarrow>
     (case playing_state i w of
        None \<Rightarrow> False
      | Some s \<Rightarrow> eats_power (pac_move (now2 i - last_frame w) (latch_dir s)))"

definition pass_gains :: "tick_input \<Rightarrow> world \<Rightarrow> int list" where
  "pass_gains i w =
     (case playing_state i w of
        None \<Rightarrow> []
      | Some s \<Rightarrow>
          let elapsed = now2 i - last_frame w;
              ghost_factor = min 2 (1 + 0.1 * (real_of_int (level s) - 1));
              ghost_speed = PAC_SPEED_BASE * ghost_factor;
              s4 = fright_decay elapsed (eat (pac_move elapsed (latch_dir s)))
          in capture_gains ghost_speed elapsed (rnd i) (px s4, py s4) GHOSTS s4)"

text \<open>
  The runs of claim C4, made of passes of the loop: a run starts with a pass that consumes
  a power pellet, from any state, and goes on with any passes that consume none.
  \<open>chain_run gl w\<close>: the run has reached \<open>w\<close>, and \<open>gl\<close> lists what its captures added to the
  score, the first capture after the power pellet first.
\<close>

inductive chain_run :: "int list \<Rightarrow> world \<Rightarrow> bool" where
  power: "loop_body i w = Some w' \<Longrightarrow> pass_power i w \<Longrightarrow> chain_run (pass_gains i w) w'"
| pass: "chain_run gl w \<Longrightarrow> loop_body i w = Some w' \<Longrightarrow> \<not> pass_power i w \<Longrightarrow>
         chain_run (gl @ pass_gains i w) w'"

text \<open>
  The invariant: the chain counter is the number of captures since the power pellet, or
  no ghost is frightened. Respawn, level reset and new game reset the counter, and clear
  every fright timer with it, so that no capture follows before the next power pellet.
\<close>

definition no_fright :: "game \<Rightarrow> bool" where
  "no_fright s \<longleftrightarrow> (\<forall>n. \<not> g_fright (ghosts s n) > 0)"

definition chain_ok :: "nat \<Rightarrow> game \<Rightarrow> bool" where
  "chain_ok k s \<longleftrightarrow> fright_chain s = int k \<or> no_fright s"

definition geometric :: "nat \<Rightarrow> int list \<Rightarrow> bool" where
  "geometric k gl \<longleftrightarrow> gl = map (\<lambda>j. 200 * 2 ^ j) [k..<k + length gl]"

lemma geometric_Nil: "geometric k []"
  by (simp add: geometric_def)

lemma geometric_Cons: "geometric (Suc k) gl \<Longrightarrow> geometric k (200 * 2 ^ k # gl)"
proof -
  assume a: "geometric (Suc k) gl"
  have "[k..<k + length (200 * 2 ^ k # gl)] = k # [Suc k..<Suc k + length gl]"
    by (simp add: upt_conv_Cons del: upt_Suc)
  then have "map (\<lambda>j. 200 * 2 ^ j) [k..<k + length (200 * 2 ^ k # gl)] =
             200 * 2 ^ k # map (\<lambda>j. (200::int) * 2 ^ j) [Suc k..<Suc k + length gl]"
    by (simp only: list.map)
  also have "\<dots> = 200 * 2 ^ k # gl"
  proof -
    from a have "map (\<lambda>j. (200::int) * 2 ^ j) [Suc k..<Suc k + length gl] = gl"
      unfolding geometric_def by (rule sym)
    then show ?thesis by (simp only:)
  qed
  finally show ?thesis unfolding geometric_def by (rule sym)
qed

lemma geometric_append:
  "geometric k gl \<Longrightarrow> geometric (k + length gl) gl' \<Longrightarrow> geometric k (gl @ gl')"
proof -
  assume a: "geometric k gl" and b: "geometric (k + length gl) gl'"
  have "[k..<k + length gl + length gl'] = [k..<k + length gl] @ [k + length gl..<k + length gl + length gl']"
    by (metis le_add1 upt_add_eq_append)
  then have "map (\<lambda>j. 200 * 2 ^ j) [k..<k + length (gl @ gl')] =
             map (\<lambda>j. 200 * 2 ^ j) [k..<k + length gl] @
             map (\<lambda>j. (200::int) * 2 ^ j) [k + length gl..<k + length gl + length gl']"
    by (simp add: add.assoc)
  then show ?thesis using a b unfolding geometric_def by simp
qed

lemma geometric_nth: "geometric 0 gl \<Longrightarrow> j < length gl \<Longrightarrow> gl ! j = 200 * 2 ^ j"
proof -
  assume a: "geometric 0 gl" and j: "j < length gl"
  have "gl ! j = map (\<lambda>j. 200 * 2 ^ j) [0..<length gl] ! j" using a by (simp add: geometric_def)
  also have "\<dots> = 200 * 2 ^ j" using j by simp
  finally show ?thesis .
qed

lemma chain_ok_keep:
  assumes "fright_chain s' = fright_chain s" "\<forall>n. g_fright (ghosts s' n) = g_fright (ghosts s n)"
    "chain_ok k s"
  shows "chain_ok k s'"
  using assms by (simp add: chain_ok_def no_fright_def)

lemma no_fright_chain_ok: "no_fright s \<Longrightarrow> chain_ok k s"
  by (simp add: chain_ok_def)

lemma new_game_no_fright: "no_fright (new_game h)"
  by (simp add: no_fright_def new_game_fields home_ghost_fields)

lemma reset_level_no_fright: "no_fright (reset_level s)"
  by (simp add: no_fright_def reset_level_fields home_ghost_fields)

lemma respawn_no_fright: "no_fright (respawn s)"
  by (simp add: no_fright_def respawn_fields)

lemma input_steps_chain:
  "fright_chain (menu_toggle e t s) = fright_chain s" "ghosts (menu_toggle e t s) = ghosts s"
  "fright_chain (waiting_start e s) = fright_chain s" "ghosts (waiting_start e s) = ghosts s"
  "fright_chain (dpad_intent e s) = fright_chain s" "ghosts (dpad_intent e s) = ghosts s"
  by (simp_all add: menu_toggle_def waiting_start_def dpad_intent_def Let_def)

lemma menu_actions_chain:
  assumes "menu_actions e (s, d) = Some (s', d')" "chain_ok k s"
  shows "chain_ok k s'"
proof (cases "menu s")
  case False
  then show ?thesis using assms by (simp add: menu_actions_def)
next
  case True
  define s1 where "s1 = (if ev_up e then s\<lparr>menu_idx := (menu_idx s - 1) mod int (length MENU_ITEMS)\<rparr> else s)"
  define s2 where "s2 = (if ev_down e then s1\<lparr>menu_idx := (menu_idx s1 + 1) mod int (length MENU_ITEMS)\<rparr> else s1)"
  define s3 where "s3 = (if ev_b e \<or> ev_y e then s2\<lparr>menu := False\<rparr> else s2)"
  have p: "fright_chain s3 = fright_chain s" "ghosts s3 = ghosts s"
    by (simp_all add: s1_def s2_def s3_def)
  have k3: "chain_ok k s3" using assms(2) p by (simp add: chain_ok_def no_fright_def)
  have k3': "chain_ok k (s3\<lparr>menu := False\<rparr>)" using k3 by (simp add: chain_ok_def no_fright_def)
  have m: "menu_actions e (s, d) =
     (if ev_a e \<or> ev_x e
      then
        let choice = MENU_ITEMS ! nat (menu_idx s3)
        in if choice = ''RESUME'' then Some (s3\<lparr>menu := False\<rparr>, d)
           else if choice = ''RESTART''
                then (let (s4, d4) = flush_hiscore (s3, d) in Some (new_game (hiscore s4), d4))
           else if choice = ''EXIT'' then None
           else Some (s3, d)
      else Some (s3, d))"
    using True unfolding menu_actions_def s1_def s2_def s3_def Let_def by simp
  show ?thesis
  proof (cases "ev_a e \<or> ev_x e")
    case False
    then have "s' = s3" using assms m by simp
    then show ?thesis using k3 by simp
  next
    case ax: True
    consider (resume) "MENU_ITEMS ! nat (menu_idx s3) = ''RESUME''"
      | (restart) "MENU_ITEMS ! nat (menu_idx s3) \<noteq> ''RESUME''" "MENU_ITEMS ! nat (menu_idx s3) = ''RESTART''"
      | (other) "MENU_ITEMS ! nat (menu_idx s3) \<noteq> ''RESUME''" "MENU_ITEMS ! nat (menu_idx s3) \<noteq> ''RESTART''"
      by blast
    then show ?thesis
    proof cases
      case resume
      then have "s' = s3\<lparr>menu := False\<rparr>" using assms m ax by (simp add: Let_def)
      then show ?thesis using k3' by simp
    next
      case restart
      then have "s' = new_game (hiscore (fst (flush_hiscore (s3, d))))"
        using assms m ax by (simp add: Let_def split_beta)
      then show ?thesis by (simp add: new_game_no_fright no_fright_chain_ok)
    next
      case other
      then have "s' = s3" using assms m ax by (simp add: Let_def split: if_splits)
      then show ?thesis using k3 by simp
    qed
  qed
qed

lemma handle_input_chain:
  assumes "handle_input i w = Some (s, d)" "chain_ok k (game w)"
  shows "chain_ok k s"
proof -
  let ?s2 = "waiting_start (ev i) (menu_toggle (ev i) (now1 i) (game w))"
  obtain s3 d3 where m: "menu_actions (ev i) (?s2, hiscore_file w) = Some (s3, d3)"
    and s: "s = dpad_intent (ev i) s3"
    using assms(1) by (auto simp: handle_input_def Let_def split: option.splits)
  have "chain_ok k ?s2" using assms(2) by (simp add: chain_ok_def no_fright_def input_steps_chain)
  then have "chain_ok k s3" using m by (rule menu_actions_chain [rotated])
  then show ?thesis unfolding s by (simp add: chain_ok_def no_fright_def input_steps_chain)
qed

lemma death_handling_chain:
  assumes "death_handling e (s, d) = (s', d')" "chain_ok k s"
  shows "chain_ok k s'"
proof (cases "dead s")
  case False
  then show ?thesis using assms by (simp add: death_handling_def)
next
  case True
  define s1 where "s1 = s\<lparr>dead_t := dead_t s + e\<rparr>"
  define s2 where "s2 = s1\<lparr>dead_t := 0, dead := False, lives := lives s1 - 1\<rparr>"
  have k1: "chain_ok k s1" using assms(2) by (simp add: s1_def chain_ok_def no_fright_def)
  have m: "death_handling e (s, d) =
     (if dead_t s1 \<ge> 1
      then if lives s2 \<le> 0
           then (let (s3, d3) = flush_hiscore (s2, d) in (new_game (hiscore s3), d3))
           else (respawn s2, d)
      else (s1, d))"
    using True unfolding death_handling_def s1_def s2_def Let_def by simp
  consider (wait) "\<not> dead_t s1 \<ge> 1" | (over) "dead_t s1 \<ge> 1" "lives s2 \<le> 0"
    | (again) "dead_t s1 \<ge> 1" "\<not> lives s2 \<le> 0" by blast
  then show ?thesis
  proof cases
    case wait
    then have "s' = s1" using assms(1) m by simp
    then show ?thesis using k1 by simp
  next
    case over
    then have "s' = new_game (hiscore (fst (flush_hiscore (s2, d))))"
      using assms(1) m by (simp add: split_beta)
    then show ?thesis by (simp add: new_game_no_fright no_fright_chain_ok)
  next
    case again
    then have "s' = respawn s2" using assms(1) m by simp
    then show ?thesis by (simp add: respawn_no_fright no_fright_chain_ok)
  qed
qed

lemma move_chain:
  "fright_chain (latch_dir s) = fright_chain s" "ghosts (latch_dir s) = ghosts s"
  "fright_chain (pac_move e s) = fright_chain s" "ghosts (pac_move e s) = ghosts s"
  "fright_chain (bump_hiscore s) = fright_chain s" "ghosts (bump_hiscore s) = ghosts s"
  by (simp_all add: latch_dir_def pac_move_def bump_hiscore_def split_beta)

lemma eat_power: "eats_power s \<Longrightarrow> fright_chain (eat s) = 0"
  by (auto simp: eat_def eats_power_def Let_def split: prod.splits)

lemma eat_no_power:
  "\<not> eats_power s \<Longrightarrow> fright_chain (eat s) = fright_chain s \<and> ghosts (eat s) = ghosts s"
  by (auto simp: eat_def eats_power_def Let_def split: prod.splits)

lemma fright_decay_chain: "chain_ok k s \<Longrightarrow> chain_ok k (fright_decay e s)"
proof -
  assume a: "chain_ok k s"
  have c: "fright_chain (fright_decay e s) = fright_chain s" by (simp add: fright_decay_def)
  have "no_fright (fright_decay e s)" if "no_fright s"
    using that by (simp add: no_fright_def fright_decay_ghosts)
  with a c show ?thesis by (auto simp: chain_ok_def)
qed

lemma next_level_chain: "chain_ok k s \<Longrightarrow> chain_ok k (next_level s)"
  by (simp add: next_level_def reset_level_no_fright no_fright_chain_ok)

lemma capture_gain:
  "fright_chain s = int k \<Longrightarrow>
   score (capture n s) = score s + 200 * 2 ^ k \<and> fright_chain (capture n s) = int (Suc k)"
  by (simp add: capture_def Let_def split_beta)

lemma ghost_turn_chain:
  assumes "chain_ok k s" and "ghost_turn gs e rn p n s = (b, s')"
  shows "if ghost_captured gs e rn p n s
         then \<not> b \<and> score s' = score s + 200 * 2 ^ k \<and> chain_ok (Suc k) s'
         else score s' = score s \<and> chain_ok k s'"
proof -
  define g1 where "g1 = ghost_think (rn n) p (ghosts s n)"
  define ap where "ap = ghost_steps (g_acc s n + gs * e) (g_dir g1) (g_x g1, g_y g1)"
  define g2 where "g2 = g1\<lparr>g_x := fst (snd ap), g_y := snd (snd ap)\<rparr>"
  define s2 where "s2 = s\<lparr>ghosts := (ghosts s)(n := g2), g_acc := (g_acc s)(n := fst ap)\<rparr>"
  have t: "ghost_turn gs e rn p n s =
     (if collide (px s) (py s) (fst (snd ap)) (snd (snd ap)) 1
      then (if g_fright (ghosts s n) > 0 then (False, capture n s2)
            else (True, s2\<lparr>dead := True, dead_t := 0\<rparr>))
      else (False, s2))"
    unfolding ghost_turn_def Let_def g1_def ap_def g2_def s2_def by (simp add: split_beta)
  have c: "ghost_captured gs e rn p n s \<longleftrightarrow>
     collide (px s) (py s) (fst (snd ap)) (snd (snd ap)) 1 \<and> g_fright (ghosts s n) > 0"
    unfolding ghost_captured_def Let_def g1_def ap_def by (simp add: split_beta)
  have f2: "\<forall>m. g_fright (ghosts s2 m) = g_fright (ghosts s m)"
    by (simp add: s2_def g2_def g1_def ghost_think_fields)
  have c2: "fright_chain s2 = fright_chain s" and sc2: "score s2 = score s"
    by (simp_all add: s2_def)
  have k2: "chain_ok k s2" using assms(1) f2 c2 by (simp add: chain_ok_def no_fright_def)
  show ?thesis
  proof (cases "ghost_captured gs e rn p n s")
    case True
    then have fr: "g_fright (ghosts s n) > 0" and s': "s' = capture n s2" and b: "\<not> b"
      using assms(2) t c by auto
    from fr have "\<not> no_fright s" by (auto simp: no_fright_def)
    then have "fright_chain s2 = int k" using assms(1) c2 by (simp add: chain_ok_def)
    from capture_gain [OF this, of n] show ?thesis
      using True b s' sc2 by (simp add: chain_ok_def)
  next
    case False
    then have "s' = s2 \<or> s' = s2\<lparr>dead := True, dead_t := 0\<rparr>"
      using assms(2) t c by (auto split: if_splits)
    then have "score s' = score s \<and> chain_ok k s'"
      using k2 sc2 by (auto simp: chain_ok_def no_fright_def)
    then show ?thesis using False by simp
  qed
qed

lemma capture_gains_chain:
  "chain_ok k s \<Longrightarrow>
   geometric k (capture_gains gs e rn p ns s) \<and>
   chain_ok (k + length (capture_gains gs e rn p ns s)) (ghosts_loop gs e rn p ns s)"
proof (induction ns arbitrary: k s)
  case Nil
  then show ?case by (simp add: geometric_Nil)
next
  case (Cons n ns)
  obtain b s' where t: "ghost_turn gs e rn p n s = (b, s')" by (cases "ghost_turn gs e rn p n s")
  note gt = ghost_turn_chain [OF Cons.prems t]
  show ?case
  proof (cases b)
    case True
    then have nc: "\<not> ghost_captured gs e rn p n s" using gt by (auto split: if_splits)
    then have "chain_ok k s'" using gt by simp
    then show ?thesis using True t by (simp add: geometric_Nil)
  next
    case False
    show ?thesis
    proof (cases "ghost_captured gs e rn p n s")
      case cap: True
      then have sc: "score s' - score s = 200 * 2 ^ k" and k': "chain_ok (Suc k) s'"
        using gt by simp_all
      from Cons.IH [OF k'] show ?thesis
        using False t cap sc by (simp add: geometric_Cons)
    next
      case nc: False
      then have k': "chain_ok k s'" using gt by simp
      from Cons.IH [OF k'] show ?thesis
        using False t nc by simp
    qed
  qed
qed

text \<open>The list accounts for the whole score change of the ghost loop.\<close>

lemma capture_gains_sum:
  "score (ghosts_loop gs e rn p ns s) = score s + sum_list (capture_gains gs e rn p ns s)"
proof (induction ns arbitrary: s)
  case Nil
  then show ?case by simp
next
  case (Cons n ns)
  obtain b s' where t: "ghost_turn gs e rn p n s = (b, s')" by (cases "ghost_turn gs e rn p n s")
  have "chain_ok (nat (fright_chain s)) s \<or> True" by simp
  define g1 where "g1 = ghost_think (rn n) p (ghosts s n)"
  define ap where "ap = ghost_steps (g_acc s n + gs * e) (g_dir g1) (g_x g1, g_y g1)"
  define g2 where "g2 = g1\<lparr>g_x := fst (snd ap), g_y := snd (snd ap)\<rparr>"
  define s2 where "s2 = s\<lparr>ghosts := (ghosts s)(n := g2), g_acc := (g_acc s)(n := fst ap)\<rparr>"
  have tt: "ghost_turn gs e rn p n s =
     (if collide (px s) (py s) (fst (snd ap)) (snd (snd ap)) 1
      then (if g_fright (ghosts s n) > 0 then (False, capture n s2)
            else (True, s2\<lparr>dead := True, dead_t := 0\<rparr>))
      else (False, s2))"
    unfolding ghost_turn_def Let_def g1_def ap_def g2_def s2_def by (simp add: split_beta)
  have c: "ghost_captured gs e rn p n s \<longleftrightarrow>
     collide (px s) (py s) (fst (snd ap)) (snd (snd ap)) 1 \<and> g_fright (ghosts s n) > 0"
    unfolding ghost_captured_def Let_def g1_def ap_def by (simp add: split_beta)
  have nc: "score s' = score s" if "\<not> ghost_captured gs e rn p n s"
    using that t tt c by (auto simp: s2_def split: if_splits)
  show ?case
  proof (cases b)
    case True
    then have "\<not> ghost_captured gs e rn p n s" using t tt c by (auto split: if_splits)
    then show ?thesis using True t nc by simp
  next
    case False
    then show ?thesis using t nc Cons.IH [of s'] by simp
  qed
qed

lemma loop_body_paused:
  assumes "loop_body i w = Some w'" "playing_state i w = None" "chain_ok k (game w)"
  shows "chain_ok k (game w')"
proof -
  obtain s4 d3 where h: "handle_input i w = Some (s4, d3)"
    using assms(1) by (auto simp: loop_body_def split: option.splits)
  have k4: "chain_ok k s4" using h assms(3) by (rule handle_input_chain)
  show ?thesis
  proof (cases "now2 i - last_frame w < frame_dt")
    case True
    then have "game w' = s4" using assms(1) h by (auto simp: loop_body_def)
    then show ?thesis using k4 by simp
  next
    case False
    then have paused: "waiting s4 \<or> menu s4 \<or> dead s4"
      using assms(2) h by (auto simp: playing_state_def split: if_splits)
    obtain s5 d5 where dh: "death_handling (now2 i - last_frame w) (s4, d3) = (s5, d5)"
      by (cases "death_handling (now2 i - last_frame w) (s4, d3)")
    have "game w' = s5" using assms(1) h False paused dh by (auto simp: loop_body_def Let_def)
    then show ?thesis using death_handling_chain [OF dh k4] by simp
  qed
qed

lemma loop_body_play:
  assumes "loop_body i w = Some w'" "playing_state i w = Some s"
  shows "game w' = gameplay (now2 i - last_frame w) (rnd i) s"
    and "\<exists>d. handle_input i w = Some (s, d)"
proof -
  obtain s4 d3 where h: "handle_input i w = Some (s4, d3)"
    using assms(1) by (auto simp: loop_body_def split: option.splits)
  have p: "\<not> now2 i - last_frame w < frame_dt" "\<not> waiting s4" "\<not> menu s4" "\<not> dead s4" "s4 = s"
    using assms(2) h by (auto simp: playing_state_def split: if_splits)
  from loop_body_playing [OF h p(1-4)] assms(1) p(5)
  show "game w' = gameplay (now2 i - last_frame w) (rnd i) s" by auto
  show "\<exists>d. handle_input i w = Some (s, d)" using h p(5) by simp
qed

lemma gameplay_chain:
  assumes "chain_ok k s4" "s4 = fright_decay e (eat (pac_move e (latch_dir s)))"
    "gl = capture_gains (PAC_SPEED_BASE * min 2 (1 + 0.1 * (real_of_int (level s) - 1))) e rn
            (px s4, py s4) GHOSTS s4"
  shows "geometric k gl \<and> chain_ok (k + length gl) (gameplay e rn s)"
proof -
  let ?gs = "PAC_SPEED_BASE * min 2 (1 + 0.1 * (real_of_int (level s) - 1))"
  have g: "gameplay e rn s = next_level (bump_hiscore (ghosts_loop ?gs e rn (px s4, py s4) GHOSTS s4))"
    unfolding gameplay_def play_core_def Let_def assms(2) by simp
  from capture_gains_chain [OF assms(1), of ?gs e rn "(px s4, py s4)" GHOSTS]
  have a: "geometric k gl" and b: "chain_ok (k + length gl) (ghosts_loop ?gs e rn (px s4, py s4) GHOSTS s4)"
    unfolding assms(3) by simp_all
  from b have "chain_ok (k + length gl) (bump_hiscore (ghosts_loop ?gs e rn (px s4, py s4) GHOSTS s4))"
    by (simp add: chain_ok_def no_fright_def move_chain)
  then show ?thesis using a unfolding g by (simp add: next_level_chain)
qed

lemma pass_no_power:
  assumes "loop_body i w = Some w'" "\<not> pass_power i w" "chain_ok k (game w)"
  shows "geometric k (pass_gains i w) \<and> chain_ok (k + length (pass_gains i w)) (game w')"
proof (cases "playing_state i w")
  case None
  then show ?thesis using loop_body_paused [OF assms(1) None assms(3)]
    by (simp add: pass_gains_def geometric_Nil)
next
  case (Some s)
  let ?e = "now2 i - last_frame w"
  let ?s2 = "pac_move ?e (latch_dir s)"
  let ?s4 = "fright_decay ?e (eat ?s2)"
  note lb = loop_body_play [OF assms(1) Some]
  from lb(2) obtain d where h: "handle_input i w = Some (s, d)" by blast
  have ks: "chain_ok k s" using h assms(3) by (rule handle_input_chain)
  have np: "\<not> eats_power ?s2" using assms(2) Some by (simp add: pass_power_def)
  have "chain_ok k (eat ?s2)"
    using ks eat_no_power [OF np] by (simp add: chain_ok_def no_fright_def move_chain)
  then have k4: "chain_ok k ?s4" by (rule fright_decay_chain)
  have gl: "pass_gains i w =
      capture_gains (PAC_SPEED_BASE * min 2 (1 + 0.1 * (real_of_int (level s) - 1))) ?e (rnd i)
        (px ?s4, py ?s4) GHOSTS ?s4"
    using Some by (simp add: pass_gains_def Let_def)
  from gameplay_chain [OF k4 refl gl] show ?thesis unfolding lb(1) by simp
qed

lemma pass_with_power:
  assumes "loop_body i w = Some w'" "pass_power i w"
  shows "geometric 0 (pass_gains i w) \<and> chain_ok (length (pass_gains i w)) (game w')"
proof -
  obtain s where Some: "playing_state i w = Some s"
    using assms(2) by (auto simp: pass_power_def split: option.splits)
  let ?e = "now2 i - last_frame w"
  let ?s2 = "pac_move ?e (latch_dir s)"
  let ?s4 = "fright_decay ?e (eat ?s2)"
  note lb = loop_body_play [OF assms(1) Some]
  have p: "eats_power ?s2" using assms(2) Some by (simp add: pass_power_def)
  have "chain_ok 0 (eat ?s2)" using eat_power [OF p] by (simp add: chain_ok_def)
  then have k4: "chain_ok 0 ?s4" by (rule fright_decay_chain)
  have gl: "pass_gains i w =
      capture_gains (PAC_SPEED_BASE * min 2 (1 + 0.1 * (real_of_int (level s) - 1))) ?e (rnd i)
        (px ?s4, py ?s4) GHOSTS ?s4"
    using Some by (simp add: pass_gains_def Let_def)
  from gameplay_chain [OF k4 refl gl] show ?thesis unfolding lb(1) by simp
qed

lemma chain_run_inv:
  "chain_run gl w \<Longrightarrow> geometric 0 gl \<and> chain_ok (length gl) (game w)"
proof (induction rule: chain_run.induct)
  case (power i w w')
  then show ?case by (rule pass_with_power)
next
  case (pass gl w i w')
  from pass_no_power [OF pass.hyps(2,3), of "length gl"] pass.IH
  show ?case by (simp add: geometric_append)
qed

text \<open>
  Claim C4. In a run of the loop that starts with the consumption of a power pellet and
  has no further power pellet, the captures add 200, 400, 800, ... to the score: the
  capture number \<open>k + 1\<close> adds exactly \<open>200 * 2^k\<close>, whatever else the passes do.
\<close>

theorem chain_capture_score:
  assumes "chain_run gl w" and "k < length gl"
  shows "gl ! k = 200 * 2 ^ k"
  using chain_run_inv [OF assms(1)] assms(2) by (simp add: geometric_nth)

lemma ghost_steps_rest: "acc < 1 \<Longrightarrow> ghost_steps acc d p = (acc, p)"
  by (subst ghost_steps.simps) simp

lemma pac_steps_rest: "acc < 1 \<Longrightarrow> pac_steps acc d p = (acc, p)"
  by (subst pac_steps.simps) simp

lemma fright_decay_eq:
  "fright_decay e s =
     s\<lparr>ghosts := (\<lambda>n. if g_fright (ghosts s n) > 0
                        then (ghosts s n)\<lparr>g_fright := max 0 (g_fright (ghosts s n) - e)\<rparr>
                        else ghosts s n)\<rparr>"
proof -
  have "fright_decay e s = s\<lparr>ghosts := ghosts (fright_decay e s)\<rparr>" by (simp add: fright_decay_def)
  then show ?thesis by (simp only: fright_decay_ghosts)
qed

lemma eat_power_eq:
  assumes "eats_power s" "px_to_cell (px s) (py s) \<notin> pellets s"
  shows "eat s = s\<lparr>power_pellets := power_pellets s - {px_to_cell (px s) (py s)},
                    score := score s + 50,
                    ghosts := (\<lambda>n. (ghosts s n)\<lparr>g_fright := FRIGHT_DURATION\<rparr>),
                    fright_chain := 0\<rparr>"
  using assms fold_ghosts_map [of "\<lambda>name g. g\<lparr>g_fright := FRIGHT_DURATION\<rparr>" "ghosts s"]
  by (simp add: eat_def eats_power_def Let_def split_beta)

lemma eat_nothing:
  assumes "px_to_cell (px s) (py s) \<notin> pellets s" "px_to_cell (px s) (py s) \<notin> power_pellets s"
  shows "eat s = s"
  using assms by (simp add: eat_def Let_def split_beta)

lemma scene_facts:
  "px_to_cell 6 8 = (1, 3)" "px_to_cell 6 10 = (1, 4)" "px_to_cell 54 30 = (13, 14)"
  "px_to_cell 54 32 = (13, 15)" "px_to_cell 58 32 = (14, 15)"
  "\<not> is_at_tile_center 6 7" "\<not> is_at_tile_center 6 9" "is_at_tile_center 6 10"
  "is_at_tile_center 54 30" "is_at_tile_center 54 32" "is_at_tile_center 58 32"
  "\<not> in_house 1 4" "in_house 13 14" "in_house 13 15" "in_house 14 15"
  by code_simp+

lemma scene_masks:
  "\<not> can_stand pac_mask 5 8"
  "\<not> can_stand ghost_mask 5 10" "\<not> can_stand ghost_mask 7 10"
  "can_stand ghost_mask 6 9" "can_stand ghost_mask 6 11"
  "can_stand ghost_mask 54 29" "can_stand ghost_mask 54 31" "can_stand ghost_mask 58 31"
proof -
  have o: "\<not> is_open_for_pac 0 3" "\<not> is_open_for_ghost 0 4" "\<not> is_open_for_ghost 2 4"
    "is_open_for_ghost 1 3" "is_open_for_ghost 1 4" "is_open_for_ghost 1 5"
    "is_open_for_ghost 13 13" "is_open_for_ghost 13 14" "is_open_for_ghost 13 15"
    "is_open_for_ghost 14 14" "is_open_for_ghost 14 15"
    by code_simp+
  show "\<not> can_stand pac_mask 5 8"
    "\<not> can_stand ghost_mask 5 10" "\<not> can_stand ghost_mask 7 10"
    "can_stand ghost_mask 6 9" "can_stand ghost_mask 6 11"
    "can_stand ghost_mask 54 29" "can_stand ghost_mask 54 31" "can_stand ghost_mask 58 31"
    by (simp_all add: can_stand_pac_mask can_stand_ghost_mask on_band_def o)
qed

lemma pinky_dir:
  "ghost_choose_dir 6 10 (0, -1) p True ghost_mask (1 / 2, 0) = (0, -1)"
  by (simp add: ghost_choose_dir_def ghost_possible_dirs_def DIR_LIST_def DIRS_L_def DIRS_R_def
        DIRS_U_def DIRS_D_def scene_masks Let_def)

lemma ghost_steps_one:
  assumes "1 \<le> acc" "acc < 2" "fst d = 0" "can_stand ghost_mask (fst p + fst d) (snd p + snd d)"
  shows "ghost_steps acc d p = (acc - 1, (fst p + fst d, snd p + snd d))"
proof -
  have "ghost_steps acc d p = ghost_steps (acc - 1) d (fst p + fst d, snd p + snd d)"
    using assms by (subst ghost_steps.simps) (simp add: Let_def)
  also have "\<dots> = (acc - 1, (fst p + fst d, snd p + snd d))"
    using assms(2) by (simp add: ghost_steps_rest)
  finally show ?thesis .
qed

theorem chain_capture_score_witness:
  "\<exists>w1 w2.
     loop_body \<lparr>ev = \<lparr>ev_up = False, ev_down = False, ev_left = False, ev_right = False, ev_a = False, ev_b = False, ev_x = False, ev_y = False, ev_start = False, ev_select = False\<rparr>, now1 = 1 / 50, now2 = 1 / 50, rnd = (\<lambda>n. (1 / 2, 0))\<rparr>
       \<lparr>game = \<lparr>score = 0, hiscore = 0, lives = 3, level = 1, pellets = {}, power_pellets = {(1, 3), (26, 3)},
       px = 6, py = 8, dir = DIRS_L, want = DIRS_L, ghosts = (\<lambda>n. case n of Blinky \<Rightarrow> \<lparr>g_x = 6, g_y = 7, g_dir = DIRS_D, g_fright = 0, g_home = (13, 14)\<rparr> | Pinky \<Rightarrow> \<lparr>g_x = 6, g_y = 10, g_dir = DIRS_U, g_fright = 0, g_home = (14, 14)\<rparr> | Inky \<Rightarrow> \<lparr>g_x = 6, g_y = 9, g_dir = DIRS_U, g_fright = 0, g_home = (13, 15)\<rparr> | Clyde \<Rightarrow> \<lparr>g_x = 6, g_y = 7, g_dir = DIRS_D, g_fright = 0, g_home = (14, 15)\<rparr>),
       dead = False, dead_t = 0, p_acc = 0, g_acc = (\<lambda>n. case n of Blinky \<Rightarrow> 0 | Pinky \<Rightarrow> 1 / 10 | Inky \<Rightarrow> 0 | Clyde \<Rightarrow> 0),
       menu = False, menu_idx = 0, fright_chain = 4, waiting = False, last_menu_toggle = 0\<rparr>, last_frame = 0, hiscore_file = 0\<rparr> = Some w1 \<and>
     pass_power \<lparr>ev = \<lparr>ev_up = False, ev_down = False, ev_left = False, ev_right = False, ev_a = False, ev_b = False, ev_x = False, ev_y = False, ev_start = False, ev_select = False\<rparr>, now1 = 1 / 50, now2 = 1 / 50, rnd = (\<lambda>n. (1 / 2, 0))\<rparr>
       \<lparr>game = \<lparr>score = 0, hiscore = 0, lives = 3, level = 1, pellets = {}, power_pellets = {(1, 3), (26, 3)},
       px = 6, py = 8, dir = DIRS_L, want = DIRS_L, ghosts = (\<lambda>n. case n of Blinky \<Rightarrow> \<lparr>g_x = 6, g_y = 7, g_dir = DIRS_D, g_fright = 0, g_home = (13, 14)\<rparr> | Pinky \<Rightarrow> \<lparr>g_x = 6, g_y = 10, g_dir = DIRS_U, g_fright = 0, g_home = (14, 14)\<rparr> | Inky \<Rightarrow> \<lparr>g_x = 6, g_y = 9, g_dir = DIRS_U, g_fright = 0, g_home = (13, 15)\<rparr> | Clyde \<Rightarrow> \<lparr>g_x = 6, g_y = 7, g_dir = DIRS_D, g_fright = 0, g_home = (14, 15)\<rparr>),
       dead = False, dead_t = 0, p_acc = 0, g_acc = (\<lambda>n. case n of Blinky \<Rightarrow> 0 | Pinky \<Rightarrow> 1 / 10 | Inky \<Rightarrow> 0 | Clyde \<Rightarrow> 0),
       menu = False, menu_idx = 0, fright_chain = 4, waiting = False, last_menu_toggle = 0\<rparr>, last_frame = 0, hiscore_file = 0\<rparr> \<and>
     loop_body \<lparr>ev = \<lparr>ev_up = False, ev_down = False, ev_left = False, ev_right = False, ev_a = False, ev_b = False, ev_x = False, ev_y = False, ev_start = False, ev_select = False\<rparr>, now1 = 1 / 25, now2 = 1 / 25, rnd = (\<lambda>n. (1 / 2, 0))\<rparr> w1 = Some w2 \<and>
     \<not> pass_power \<lparr>ev = \<lparr>ev_up = False, ev_down = False, ev_left = False, ev_right = False, ev_a = False, ev_b = False, ev_x = False, ev_y = False, ev_start = False, ev_select = False\<rparr>, now1 = 1 / 25, now2 = 1 / 25, rnd = (\<lambda>n. (1 / 2, 0))\<rparr> w1 \<and>
     pass_gains \<lparr>ev = \<lparr>ev_up = False, ev_down = False, ev_left = False, ev_right = False, ev_a = False, ev_b = False, ev_x = False, ev_y = False, ev_start = False, ev_select = False\<rparr>, now1 = 1 / 50, now2 = 1 / 50, rnd = (\<lambda>n. (1 / 2, 0))\<rparr>
       \<lparr>game = \<lparr>score = 0, hiscore = 0, lives = 3, level = 1, pellets = {}, power_pellets = {(1, 3), (26, 3)},
       px = 6, py = 8, dir = DIRS_L, want = DIRS_L, ghosts = (\<lambda>n. case n of Blinky \<Rightarrow> \<lparr>g_x = 6, g_y = 7, g_dir = DIRS_D, g_fright = 0, g_home = (13, 14)\<rparr> | Pinky \<Rightarrow> \<lparr>g_x = 6, g_y = 10, g_dir = DIRS_U, g_fright = 0, g_home = (14, 14)\<rparr> | Inky \<Rightarrow> \<lparr>g_x = 6, g_y = 9, g_dir = DIRS_U, g_fright = 0, g_home = (13, 15)\<rparr> | Clyde \<Rightarrow> \<lparr>g_x = 6, g_y = 7, g_dir = DIRS_D, g_fright = 0, g_home = (14, 15)\<rparr>),
       dead = False, dead_t = 0, p_acc = 0, g_acc = (\<lambda>n. case n of Blinky \<Rightarrow> 0 | Pinky \<Rightarrow> 1 / 10 | Inky \<Rightarrow> 0 | Clyde \<Rightarrow> 0),
       menu = False, menu_idx = 0, fright_chain = 4, waiting = False, last_menu_toggle = 0\<rparr>, last_frame = 0, hiscore_file = 0\<rparr> = [200, 400, 800] \<and>
     pass_gains \<lparr>ev = \<lparr>ev_up = False, ev_down = False, ev_left = False, ev_right = False, ev_a = False, ev_b = False, ev_x = False, ev_y = False, ev_start = False, ev_select = False\<rparr>, now1 = 1 / 25, now2 = 1 / 25, rnd = (\<lambda>n. (1 / 2, 0))\<rparr> w1 = [1600] \<and>
     chain_run [200, 400, 800, 1600] w2 \<and>
     [200, 400, 800, 1600 :: int] ! 3 = 200 * 2 ^ 3"
proof -
  let ?e = "1 / 50 :: real"
  let ?rn = "\<lambda>n::ghost_name. (1 / 2 :: real, 0 :: nat)"
  let ?i1 = "\<lparr>ev = \<lparr>ev_up = False, ev_down = False, ev_left = False, ev_right = False, ev_a = False, ev_b = False, ev_x = False, ev_y = False, ev_start = False, ev_select = False\<rparr>, now1 = 1 / 50, now2 = 1 / 50, rnd = (\<lambda>n. (1 / 2, 0))\<rparr>"
  let ?i2 = "\<lparr>ev = \<lparr>ev_up = False, ev_down = False, ev_left = False, ev_right = False, ev_a = False, ev_b = False, ev_x = False, ev_y = False, ev_start = False, ev_select = False\<rparr>, now1 = 1 / 25, now2 = 1 / 25, rnd = (\<lambda>n. (1 / 2, 0))\<rparr>"
  let ?s0 = "\<lparr>score = 0, hiscore = 0, lives = 3, level = 1, pellets = {}, power_pellets = {(1, 3), (26, 3)},
       px = 6, py = 8, dir = DIRS_L, want = DIRS_L, ghosts = (\<lambda>n. case n of Blinky \<Rightarrow> \<lparr>g_x = 6, g_y = 7, g_dir = DIRS_D, g_fright = 0, g_home = (13, 14)\<rparr> | Pinky \<Rightarrow> \<lparr>g_x = 6, g_y = 10, g_dir = DIRS_U, g_fright = 0, g_home = (14, 14)\<rparr> | Inky \<Rightarrow> \<lparr>g_x = 6, g_y = 9, g_dir = DIRS_U, g_fright = 0, g_home = (13, 15)\<rparr> | Clyde \<Rightarrow> \<lparr>g_x = 6, g_y = 7, g_dir = DIRS_D, g_fright = 0, g_home = (14, 15)\<rparr>),
       dead = False, dead_t = 0, p_acc = 0, g_acc = (\<lambda>n. case n of Blinky \<Rightarrow> 0 | Pinky \<Rightarrow> 1 / 10 | Inky \<Rightarrow> 0 | Clyde \<Rightarrow> 0),
       menu = False, menu_idx = 0, fright_chain = 4, waiting = False, last_menu_toggle = 0\<rparr>"
  let ?sm = "\<lparr>score = 0, hiscore = 0, lives = 3, level = 1, pellets = {}, power_pellets = {(1, 3), (26, 3)},
       px = 6, py = 8, dir = DIRS_L, want = DIRS_L, ghosts = (\<lambda>n. case n of Blinky \<Rightarrow> \<lparr>g_x = 6, g_y = 7, g_dir = DIRS_D, g_fright = 0, g_home = (13, 14)\<rparr> | Pinky \<Rightarrow> \<lparr>g_x = 6, g_y = 10, g_dir = DIRS_U, g_fright = 0, g_home = (14, 14)\<rparr> | Inky \<Rightarrow> \<lparr>g_x = 6, g_y = 9, g_dir = DIRS_U, g_fright = 0, g_home = (13, 15)\<rparr> | Clyde \<Rightarrow> \<lparr>g_x = 6, g_y = 7, g_dir = DIRS_D, g_fright = 0, g_home = (14, 15)\<rparr>),
       dead = False, dead_t = 0, p_acc = 12 / 25, g_acc = (\<lambda>n. case n of Blinky \<Rightarrow> 0 | Pinky \<Rightarrow> 1 / 10 | Inky \<Rightarrow> 0 | Clyde \<Rightarrow> 0),
       menu = False, menu_idx = 0, fright_chain = 4, waiting = False, last_menu_toggle = 0\<rparr>"
  let ?se = "\<lparr>score = 50, hiscore = 0, lives = 3, level = 1, pellets = {}, power_pellets = {(26, 3)},
       px = 6, py = 8, dir = DIRS_L, want = DIRS_L, ghosts = (\<lambda>n. case n of Blinky \<Rightarrow> \<lparr>g_x = 6, g_y = 7, g_dir = DIRS_D, g_fright = 21 / 2, g_home = (13, 14)\<rparr> | Pinky \<Rightarrow> \<lparr>g_x = 6, g_y = 10, g_dir = DIRS_U, g_fright = 21 / 2, g_home = (14, 14)\<rparr> | Inky \<Rightarrow> \<lparr>g_x = 6, g_y = 9, g_dir = DIRS_U, g_fright = 21 / 2, g_home = (13, 15)\<rparr> | Clyde \<Rightarrow> \<lparr>g_x = 6, g_y = 7, g_dir = DIRS_D, g_fright = 21 / 2, g_home = (14, 15)\<rparr>),
       dead = False, dead_t = 0, p_acc = 12 / 25, g_acc = (\<lambda>n. case n of Blinky \<Rightarrow> 0 | Pinky \<Rightarrow> 1 / 10 | Inky \<Rightarrow> 0 | Clyde \<Rightarrow> 0),
       menu = False, menu_idx = 0, fright_chain = 0, waiting = False, last_menu_toggle = 0\<rparr>"
  let ?s4 = "\<lparr>score = 50, hiscore = 0, lives = 3, level = 1, pellets = {}, power_pellets = {(26, 3)},
       px = 6, py = 8, dir = DIRS_L, want = DIRS_L, ghosts = (\<lambda>n. case n of Blinky \<Rightarrow> \<lparr>g_x = 6, g_y = 7, g_dir = DIRS_D, g_fright = 262 / 25, g_home = (13, 14)\<rparr> | Pinky \<Rightarrow> \<lparr>g_x = 6, g_y = 10, g_dir = DIRS_U, g_fright = 262 / 25, g_home = (14, 14)\<rparr> | Inky \<Rightarrow> \<lparr>g_x = 6, g_y = 9, g_dir = DIRS_U, g_fright = 262 / 25, g_home = (13, 15)\<rparr> | Clyde \<Rightarrow> \<lparr>g_x = 6, g_y = 7, g_dir = DIRS_D, g_fright = 262 / 25, g_home = (14, 15)\<rparr>),
       dead = False, dead_t = 0, p_acc = 12 / 25, g_acc = (\<lambda>n. case n of Blinky \<Rightarrow> 0 | Pinky \<Rightarrow> 1 / 10 | Inky \<Rightarrow> 0 | Clyde \<Rightarrow> 0),
       menu = False, menu_idx = 0, fright_chain = 0, waiting = False, last_menu_toggle = 0\<rparr>"
  let ?s5 = "\<lparr>score = 250, hiscore = 0, lives = 3, level = 1, pellets = {}, power_pellets = {(26, 3)},
       px = 6, py = 8, dir = DIRS_L, want = DIRS_L, ghosts = (\<lambda>n. case n of Blinky \<Rightarrow> \<lparr>g_x = 54, g_y = 30, g_dir = DIRS_U, g_fright = 0, g_home = (13, 14)\<rparr> | Pinky \<Rightarrow> \<lparr>g_x = 6, g_y = 10, g_dir = DIRS_U, g_fright = 262 / 25, g_home = (14, 14)\<rparr> | Inky \<Rightarrow> \<lparr>g_x = 6, g_y = 9, g_dir = DIRS_U, g_fright = 262 / 25, g_home = (13, 15)\<rparr> | Clyde \<Rightarrow> \<lparr>g_x = 6, g_y = 7, g_dir = DIRS_D, g_fright = 262 / 25, g_home = (14, 15)\<rparr>),
       dead = False, dead_t = 0, p_acc = 12 / 25, g_acc = (\<lambda>n. case n of Blinky \<Rightarrow> 0 | Pinky \<Rightarrow> 1 / 10 | Inky \<Rightarrow> 0 | Clyde \<Rightarrow> 0),
       menu = False, menu_idx = 0, fright_chain = 1, waiting = False, last_menu_toggle = 0\<rparr>"
  let ?s6 = "\<lparr>score = 250, hiscore = 0, lives = 3, level = 1, pellets = {}, power_pellets = {(26, 3)},
       px = 6, py = 8, dir = DIRS_L, want = DIRS_L, ghosts = (\<lambda>n. case n of Blinky \<Rightarrow> \<lparr>g_x = 54, g_y = 30, g_dir = DIRS_U, g_fright = 0, g_home = (13, 14)\<rparr> | Pinky \<Rightarrow> \<lparr>g_x = 6, g_y = 10, g_dir = DIRS_U, g_fright = 262 / 25, g_home = (14, 14)\<rparr> | Inky \<Rightarrow> \<lparr>g_x = 6, g_y = 9, g_dir = DIRS_U, g_fright = 262 / 25, g_home = (13, 15)\<rparr> | Clyde \<Rightarrow> \<lparr>g_x = 6, g_y = 7, g_dir = DIRS_D, g_fright = 262 / 25, g_home = (14, 15)\<rparr>),
       dead = False, dead_t = 0, p_acc = 12 / 25, g_acc = (\<lambda>n. case n of Blinky \<Rightarrow> 0 | Pinky \<Rightarrow> 29 / 50 | Inky \<Rightarrow> 0 | Clyde \<Rightarrow> 0),
       menu = False, menu_idx = 0, fright_chain = 1, waiting = False, last_menu_toggle = 0\<rparr>"
  let ?s7 = "\<lparr>score = 650, hiscore = 0, lives = 3, level = 1, pellets = {}, power_pellets = {(26, 3)},
       px = 6, py = 8, dir = DIRS_L, want = DIRS_L, ghosts = (\<lambda>n. case n of Blinky \<Rightarrow> \<lparr>g_x = 54, g_y = 30, g_dir = DIRS_U, g_fright = 0, g_home = (13, 14)\<rparr> | Pinky \<Rightarrow> \<lparr>g_x = 6, g_y = 10, g_dir = DIRS_U, g_fright = 262 / 25, g_home = (14, 14)\<rparr> | Inky \<Rightarrow> \<lparr>g_x = 54, g_y = 32, g_dir = DIRS_U, g_fright = 0, g_home = (13, 15)\<rparr> | Clyde \<Rightarrow> \<lparr>g_x = 6, g_y = 7, g_dir = DIRS_D, g_fright = 262 / 25, g_home = (14, 15)\<rparr>),
       dead = False, dead_t = 0, p_acc = 12 / 25, g_acc = (\<lambda>n. case n of Blinky \<Rightarrow> 0 | Pinky \<Rightarrow> 29 / 50 | Inky \<Rightarrow> 0 | Clyde \<Rightarrow> 0),
       menu = False, menu_idx = 0, fright_chain = 2, waiting = False, last_menu_toggle = 0\<rparr>"
  let ?s8 = "\<lparr>score = 1450, hiscore = 0, lives = 3, level = 1, pellets = {}, power_pellets = {(26, 3)},
       px = 6, py = 8, dir = DIRS_L, want = DIRS_L, ghosts = (\<lambda>n. case n of Blinky \<Rightarrow> \<lparr>g_x = 54, g_y = 30, g_dir = DIRS_U, g_fright = 0, g_home = (13, 14)\<rparr> | Pinky \<Rightarrow> \<lparr>g_x = 6, g_y = 10, g_dir = DIRS_U, g_fright = 262 / 25, g_home = (14, 14)\<rparr> | Inky \<Rightarrow> \<lparr>g_x = 54, g_y = 32, g_dir = DIRS_U, g_fright = 0, g_home = (13, 15)\<rparr> | Clyde \<Rightarrow> \<lparr>g_x = 58, g_y = 32, g_dir = DIRS_U, g_fright = 0, g_home = (14, 15)\<rparr>),
       dead = False, dead_t = 0, p_acc = 12 / 25, g_acc = (\<lambda>n. case n of Blinky \<Rightarrow> 0 | Pinky \<Rightarrow> 29 / 50 | Inky \<Rightarrow> 0 | Clyde \<Rightarrow> 0),
       menu = False, menu_idx = 0, fright_chain = 3, waiting = False, last_menu_toggle = 0\<rparr>"
  let ?s1 = "\<lparr>score = 1450, hiscore = 1450, lives = 3, level = 1, pellets = {}, power_pellets = {(26, 3)},
       px = 6, py = 8, dir = DIRS_L, want = DIRS_L, ghosts = (\<lambda>n. case n of Blinky \<Rightarrow> \<lparr>g_x = 54, g_y = 30, g_dir = DIRS_U, g_fright = 0, g_home = (13, 14)\<rparr> | Pinky \<Rightarrow> \<lparr>g_x = 6, g_y = 10, g_dir = DIRS_U, g_fright = 262 / 25, g_home = (14, 14)\<rparr> | Inky \<Rightarrow> \<lparr>g_x = 54, g_y = 32, g_dir = DIRS_U, g_fright = 0, g_home = (13, 15)\<rparr> | Clyde \<Rightarrow> \<lparr>g_x = 58, g_y = 32, g_dir = DIRS_U, g_fright = 0, g_home = (14, 15)\<rparr>),
       dead = False, dead_t = 0, p_acc = 12 / 25, g_acc = (\<lambda>n. case n of Blinky \<Rightarrow> 0 | Pinky \<Rightarrow> 29 / 50 | Inky \<Rightarrow> 0 | Clyde \<Rightarrow> 0),
       menu = False, menu_idx = 0, fright_chain = 3, waiting = False, last_menu_toggle = 0\<rparr>"
  let ?t2 = "\<lparr>score = 1450, hiscore = 1450, lives = 3, level = 1, pellets = {}, power_pellets = {(26, 3)},
       px = 6, py = 8, dir = DIRS_L, want = DIRS_L, ghosts = (\<lambda>n. case n of Blinky \<Rightarrow> \<lparr>g_x = 54, g_y = 30, g_dir = DIRS_U, g_fright = 0, g_home = (13, 14)\<rparr> | Pinky \<Rightarrow> \<lparr>g_x = 6, g_y = 10, g_dir = DIRS_U, g_fright = 262 / 25, g_home = (14, 14)\<rparr> | Inky \<Rightarrow> \<lparr>g_x = 54, g_y = 32, g_dir = DIRS_U, g_fright = 0, g_home = (13, 15)\<rparr> | Clyde \<Rightarrow> \<lparr>g_x = 58, g_y = 32, g_dir = DIRS_U, g_fright = 0, g_home = (14, 15)\<rparr>),
       dead = False, dead_t = 0, p_acc = 24 / 25, g_acc = (\<lambda>n. case n of Blinky \<Rightarrow> 0 | Pinky \<Rightarrow> 29 / 50 | Inky \<Rightarrow> 0 | Clyde \<Rightarrow> 0),
       menu = False, menu_idx = 0, fright_chain = 3, waiting = False, last_menu_toggle = 0\<rparr>"
  let ?t4 = "\<lparr>score = 1450, hiscore = 1450, lives = 3, level = 1, pellets = {}, power_pellets = {(26, 3)},
       px = 6, py = 8, dir = DIRS_L, want = DIRS_L, ghosts = (\<lambda>n. case n of Blinky \<Rightarrow> \<lparr>g_x = 54, g_y = 30, g_dir = DIRS_U, g_fright = 0, g_home = (13, 14)\<rparr> | Pinky \<Rightarrow> \<lparr>g_x = 6, g_y = 10, g_dir = DIRS_U, g_fright = 523 / 50, g_home = (14, 14)\<rparr> | Inky \<Rightarrow> \<lparr>g_x = 54, g_y = 32, g_dir = DIRS_U, g_fright = 0, g_home = (13, 15)\<rparr> | Clyde \<Rightarrow> \<lparr>g_x = 58, g_y = 32, g_dir = DIRS_U, g_fright = 0, g_home = (14, 15)\<rparr>),
       dead = False, dead_t = 0, p_acc = 24 / 25, g_acc = (\<lambda>n. case n of Blinky \<Rightarrow> 0 | Pinky \<Rightarrow> 29 / 50 | Inky \<Rightarrow> 0 | Clyde \<Rightarrow> 0),
       menu = False, menu_idx = 0, fright_chain = 3, waiting = False, last_menu_toggle = 0\<rparr>"
  let ?t5 = "\<lparr>score = 1450, hiscore = 1450, lives = 3, level = 1, pellets = {}, power_pellets = {(26, 3)},
       px = 6, py = 8, dir = DIRS_L, want = DIRS_L, ghosts = (\<lambda>n. case n of Blinky \<Rightarrow> \<lparr>g_x = 54, g_y = 30, g_dir = DIRS_U, g_fright = 0, g_home = (13, 14)\<rparr> | Pinky \<Rightarrow> \<lparr>g_x = 6, g_y = 10, g_dir = DIRS_U, g_fright = 523 / 50, g_home = (14, 14)\<rparr> | Inky \<Rightarrow> \<lparr>g_x = 54, g_y = 32, g_dir = DIRS_U, g_fright = 0, g_home = (13, 15)\<rparr> | Clyde \<Rightarrow> \<lparr>g_x = 58, g_y = 32, g_dir = DIRS_U, g_fright = 0, g_home = (14, 15)\<rparr>),
       dead = False, dead_t = 0, p_acc = 24 / 25, g_acc = (\<lambda>n. case n of Blinky \<Rightarrow> 12 / 25 | Pinky \<Rightarrow> 29 / 50 | Inky \<Rightarrow> 0 | Clyde \<Rightarrow> 0),
       menu = False, menu_idx = 0, fright_chain = 3, waiting = False, last_menu_toggle = 0\<rparr>"
  let ?t6 = "\<lparr>score = 3050, hiscore = 1450, lives = 3, level = 1, pellets = {}, power_pellets = {(26, 3)},
       px = 6, py = 8, dir = DIRS_L, want = DIRS_L, ghosts = (\<lambda>n. case n of Blinky \<Rightarrow> \<lparr>g_x = 54, g_y = 30, g_dir = DIRS_U, g_fright = 0, g_home = (13, 14)\<rparr> | Pinky \<Rightarrow> \<lparr>g_x = 58, g_y = 30, g_dir = DIRS_U, g_fright = 0, g_home = (14, 14)\<rparr> | Inky \<Rightarrow> \<lparr>g_x = 54, g_y = 32, g_dir = DIRS_U, g_fright = 0, g_home = (13, 15)\<rparr> | Clyde \<Rightarrow> \<lparr>g_x = 58, g_y = 32, g_dir = DIRS_U, g_fright = 0, g_home = (14, 15)\<rparr>),
       dead = False, dead_t = 0, p_acc = 24 / 25, g_acc = (\<lambda>n. case n of Blinky \<Rightarrow> 12 / 25 | Pinky \<Rightarrow> 0 | Inky \<Rightarrow> 0 | Clyde \<Rightarrow> 0),
       menu = False, menu_idx = 0, fright_chain = 4, waiting = False, last_menu_toggle = 0\<rparr>"
  let ?t7 = "\<lparr>score = 3050, hiscore = 1450, lives = 3, level = 1, pellets = {}, power_pellets = {(26, 3)},
       px = 6, py = 8, dir = DIRS_L, want = DIRS_L, ghosts = (\<lambda>n. case n of Blinky \<Rightarrow> \<lparr>g_x = 54, g_y = 30, g_dir = DIRS_U, g_fright = 0, g_home = (13, 14)\<rparr> | Pinky \<Rightarrow> \<lparr>g_x = 58, g_y = 30, g_dir = DIRS_U, g_fright = 0, g_home = (14, 14)\<rparr> | Inky \<Rightarrow> \<lparr>g_x = 54, g_y = 32, g_dir = DIRS_U, g_fright = 0, g_home = (13, 15)\<rparr> | Clyde \<Rightarrow> \<lparr>g_x = 58, g_y = 32, g_dir = DIRS_U, g_fright = 0, g_home = (14, 15)\<rparr>),
       dead = False, dead_t = 0, p_acc = 24 / 25, g_acc = (\<lambda>n. case n of Blinky \<Rightarrow> 12 / 25 | Pinky \<Rightarrow> 0 | Inky \<Rightarrow> 12 / 25 | Clyde \<Rightarrow> 0),
       menu = False, menu_idx = 0, fright_chain = 4, waiting = False, last_menu_toggle = 0\<rparr>"
  let ?t8 = "\<lparr>score = 3050, hiscore = 1450, lives = 3, level = 1, pellets = {}, power_pellets = {(26, 3)},
       px = 6, py = 8, dir = DIRS_L, want = DIRS_L, ghosts = (\<lambda>n. case n of Blinky \<Rightarrow> \<lparr>g_x = 54, g_y = 30, g_dir = DIRS_U, g_fright = 0, g_home = (13, 14)\<rparr> | Pinky \<Rightarrow> \<lparr>g_x = 58, g_y = 30, g_dir = DIRS_U, g_fright = 0, g_home = (14, 14)\<rparr> | Inky \<Rightarrow> \<lparr>g_x = 54, g_y = 32, g_dir = DIRS_U, g_fright = 0, g_home = (13, 15)\<rparr> | Clyde \<Rightarrow> \<lparr>g_x = 58, g_y = 32, g_dir = DIRS_U, g_fright = 0, g_home = (14, 15)\<rparr>),
       dead = False, dead_t = 0, p_acc = 24 / 25, g_acc = (\<lambda>n. case n of Blinky \<Rightarrow> 12 / 25 | Pinky \<Rightarrow> 0 | Inky \<Rightarrow> 12 / 25 | Clyde \<Rightarrow> 12 / 25),
       menu = False, menu_idx = 0, fright_chain = 4, waiting = False, last_menu_toggle = 0\<rparr>"
  let ?w0 = "\<lparr>game = ?s0, last_frame = 0, hiscore_file = 0\<rparr>"
  let ?w1 = "\<lparr>game = ?s1, last_frame = 1 / 50, hiscore_file = 0\<rparr>"
  let ?w2 = "\<lparr>game = gameplay ?e ?rn ?s1, last_frame = 1 / 25, hiscore_file = 0\<rparr>"
  note ev = ghost_turn_def ghost_captured_def ghost_think_def scene_facts scene_masks pinky_dir
    ghost_steps_rest ghost_steps_one collide_def capture_def cell_center_eq Let_def DIRS_U_def
    DIRS_D_def fun_eq_iff

  have l: "latch_dir ?s0 = ?s0" by (simp add: latch_dir_def DIRS_L_def scene_masks)
  have m: "pac_move ?e ?s0 = ?sm" by (simp add: pac_move_def PAC_SPEED_BASE_def pac_steps_rest)
  have ep: "eats_power ?sm" by (simp add: eats_power_def scene_facts cell_center_eq)
  have ea: "eat ?sm = ?se"
    by (subst eat_power_eq [OF ep])
      (simp_all add: scene_facts FRIGHT_DURATION_def fun_eq_iff split: ghost_name.split)
  have fd: "fright_decay ?e ?se = ?s4"
    by (subst fright_decay_eq) (simp add: fun_eq_iff split: ghost_name.split)
  have t1: "ghost_turn 24 ?e ?rn (6, 8) Blinky ?s4 = (False, ?s5)"
    by (simp add: ev split: ghost_name.split)
  have t2: "ghost_turn 24 ?e ?rn (6, 8) Pinky ?s5 = (False, ?s6)"
    by (simp add: ev split: ghost_name.split)
  have t3: "ghost_turn 24 ?e ?rn (6, 8) Inky ?s6 = (False, ?s7)"
    by (simp add: ev split: ghost_name.split)
  have t4: "ghost_turn 24 ?e ?rn (6, 8) Clyde ?s7 = (False, ?s8)"
    by (simp add: ev split: ghost_name.split)
  have c1: "ghost_captured 24 ?e ?rn (6, 8) Blinky ?s4" by (simp add: ev)
  have c2: "\<not> ghost_captured 24 ?e ?rn (6, 8) Pinky ?s5" by (simp add: ev)
  have c3: "ghost_captured 24 ?e ?rn (6, 8) Inky ?s6" by (simp add: ev)
  have c4: "ghost_captured 24 ?e ?rn (6, 8) Clyde ?s7" by (simp add: ev)
  have gl1: "ghosts_loop 24 ?e ?rn (6, 8) GHOSTS ?s4 = ?s8"
    by (simp only: GHOSTS_def ghosts_loop.simps t1 t2 t3 t4 prod.case bool.case)
  have cg1: "capture_gains 24 ?e ?rn (6, 8) GHOSTS ?s4 = [200, 400, 800]"
    by (simp add: GHOSTS_def t1 t2 t3 t4 c1 c2 c3 c4)
  have bh: "bump_hiscore ?s8 = ?s1" by (simp add: bump_hiscore_def)
  have nl: "next_level ?s1 = ?s1" by (simp add: next_level_def)
  have sp: "PAC_SPEED_BASE * min 2 (1 + 0.1 * (real_of_int (level ?s0) - 1)) = 24"
    by (simp add: PAC_SPEED_BASE_def)
  have p4: "(px ?s4, py ?s4) = (6, 8)" by simp
  have gp1: "gameplay ?e ?rn ?s0 = ?s1"
    unfolding gameplay_def play_core_def Let_def sp l m ea fd p4 gl1 bh nl ..
  have h1: "handle_input ?i1 ?w0 = Some (?s0, 0)"
    by (simp add: handle_input_def menu_toggle_def waiting_start_def menu_actions_def
          dpad_intent_def Let_def)
  have ps1: "playing_state ?i1 ?w0 = Some ?s0"
    by (simp add: playing_state_def h1 frame_dt_def)
  have lb1: "loop_body ?i1 ?w0 = Some ?w1"
    using loop_body_playing [OF h1] gp1 by (simp add: frame_dt_def)
  have pp1: "pass_power ?i1 ?w0"
    unfolding pass_power_def ps1 using ep l m by simp
  have pg1: "pass_gains ?i1 ?w0 = [200, 400, 800]"
    unfolding pass_gains_def ps1 Let_def using sp l m ea fd cg1 by simp

  have l2: "latch_dir ?s1 = ?s1" by (simp add: latch_dir_def DIRS_L_def scene_masks)
  have m2: "pac_move ?e ?s1 = ?t2" by (simp add: pac_move_def PAC_SPEED_BASE_def pac_steps_rest)
  have np: "\<not> eats_power ?t2" by (simp add: eats_power_def scene_facts cell_center_eq)
  have ea2: "eat ?t2 = ?t2" by (rule eat_nothing) (simp_all add: scene_facts)
  have fd2: "fright_decay ?e ?t2 = ?t4"
    by (subst fright_decay_eq) (simp add: fun_eq_iff split: ghost_name.split)
  have u1: "ghost_turn 24 ?e ?rn (6, 8) Blinky ?t4 = (False, ?t5)"
    by (simp add: ev split: ghost_name.split)
  have u2: "ghost_turn 24 ?e ?rn (6, 8) Pinky ?t5 = (False, ?t6)"
    by (simp add: ev split: ghost_name.split)
  have u3: "ghost_turn 24 ?e ?rn (6, 8) Inky ?t6 = (False, ?t7)"
    by (simp add: ev split: ghost_name.split)
  have u4: "ghost_turn 24 ?e ?rn (6, 8) Clyde ?t7 = (False, ?t8)"
    by (simp add: ev split: ghost_name.split)
  have d1: "\<not> ghost_captured 24 ?e ?rn (6, 8) Blinky ?t4" by (simp add: ev)
  have d2: "ghost_captured 24 ?e ?rn (6, 8) Pinky ?t5" by (simp add: ev)
  have d3: "\<not> ghost_captured 24 ?e ?rn (6, 8) Inky ?t6" by (simp add: ev)
  have d4: "\<not> ghost_captured 24 ?e ?rn (6, 8) Clyde ?t7" by (simp add: ev)
  have cg2: "capture_gains 24 ?e ?rn (6, 8) GHOSTS ?t4 = [1600]"
    by (simp add: GHOSTS_def u1 u2 u3 u4 d1 d2 d3 d4)
  have sp2: "PAC_SPEED_BASE * min 2 (1 + 0.1 * (real_of_int (level ?s1) - 1)) = 24"
    by (simp add: PAC_SPEED_BASE_def)
  have h2: "handle_input ?i2 ?w1 = Some (?s1, 0)"
    by (simp add: handle_input_def menu_toggle_def waiting_start_def menu_actions_def
          dpad_intent_def Let_def)
  have ps2: "playing_state ?i2 ?w1 = Some ?s1"
    by (simp add: playing_state_def h2 frame_dt_def)
  have lb2: "loop_body ?i2 ?w1 = Some ?w2"
    using loop_body_playing [OF h2] by (simp add: frame_dt_def)
  have pp2: "\<not> pass_power ?i2 ?w1"
    unfolding pass_power_def ps2 using np l2 m2 by simp
  have pg2: "pass_gains ?i2 ?w1 = [1600]"
    unfolding pass_gains_def ps2 Let_def using sp2 l2 m2 ea2 fd2 cg2 by simp

  have "chain_run (pass_gains ?i1 ?w0) ?w1" using lb1 pp1 by (rule chain_run.power)
  then have "chain_run (pass_gains ?i1 ?w0 @ pass_gains ?i2 ?w1) ?w2"
    using lb2 pp2 by (rule chain_run.pass)
  then have run: "chain_run [200, 400, 800, 1600] ?w2" by (simp only: pg1 pg2 append.simps)
  have k: "3 < length [200, 400, 800, 1600 :: int]" by simp
  from chain_capture_score [OF run k] lb1 pp1 lb2 pp2 pg1 pg2 run
  show ?thesis by blast
qed

end
